theory Spec2Isabelle
  imports Complex_Main
begin

section \<open>B-spline and rational B-spline evaluation (ezdxf/algebra/spline.py)\<close>

text \<open>
  A shallow embedding of \<^verbatim>\<open>ezdxf/algebra/spline.py\<close>.

  \<^item> Python floats are modelled as exact reals: \<open>+\<close>, \<open>-\<close>, \<open>*\<close> never round, and
    comparisons are those of the reals. A float division is \<open>pydiv\<close>, which raises
    \<open>ZeroDivisionError\<close> on a zero divisor (as Python's \<^verbatim>\<open>/\<close> does) instead of giving a
    NaN. Rounding, overflow and NaN are outside this model.
  \<^item> Every raise of the source is a value: a computation has type \<open>'a result\<close>, and
    \<open>Inl e\<close> is the exception \<open>e\<close>.
  \<^item> Python lists are HOL lists read with \<open>getitem\<close> and written with \<open>setitem\<close>, both of
    which raise \<open>IndexError\<close> out of range. All indices of the module are non-negative.
  \<^item> The control-point count and the order are natural numbers (the model covers
    \<^verbatim>\<open>order >= 0\<close>).
  \<^item> The classes \<^verbatim>\<open>BSpline\<close>, \<^verbatim>\<open>BSplineU\<close>, \<^verbatim>\<open>DBSpline\<close>, \<^verbatim>\<open>DBSplineU\<close>, \<^verbatim>\<open>RBSpline\<close>,
    \<^verbatim>\<open>RBSplineU\<close> are one record with a class tag; a method that a subclass overrides
    dispatches on the tag.
\<close>

subsection \<open>Exceptions, lists and arithmetic of the host language\<close>

datatype py_error = IndexError | ZeroDivisionError | ValueError

type_synonym 'a result = "py_error + 'a"

definition rbind :: "'a result \<Rightarrow> ('a \<Rightarrow> 'b result) \<Rightarrow> 'b result" where
  "rbind m f = (case m of Inl e \<Rightarrow> Inl e | Inr v \<Rightarrow> f v)"

definition getitem :: "'a list \<Rightarrow> nat \<Rightarrow> 'a result" where
  "getitem xs i = (if i < length xs then Inr (xs ! i) else Inl IndexError)"

definition setitem :: "'a list \<Rightarrow> nat \<Rightarrow> 'a \<Rightarrow> 'a list result" where
  "setitem xs i v = (if i < length xs then Inr (xs[i := v]) else Inl IndexError)"

definition pydiv :: "real \<Rightarrow> real \<Rightarrow> real result" where
  "pydiv a b = (if b = 0 then Inl ZeroDivisionError else Inr (a / b))"

text \<open>\<^verbatim>\<open>sum(...)\<close> adds from the left, starting at 0.\<close>

definition py_sum :: "real list \<Rightarrow> real" where
  "py_sum xs = foldl (+) 0 xs"

text \<open>A \<^verbatim>\<open>for\<close> loop whose body may raise: the first exception ends the loop.\<close>

fun for_loop :: "('s \<Rightarrow> 'a \<Rightarrow> 's result) \<Rightarrow> 's \<Rightarrow> 'a list \<Rightarrow> 's result" where
  "for_loop body s [] = Inr s"
| "for_loop body s (x # xs) = rbind (body s x) (\<lambda>s'. for_loop body s' xs)"

text \<open>A generator consumed in order: the first element that raises ends it.\<close>

fun gen_list :: "('a \<Rightarrow> 'b result) \<Rightarrow> 'a list \<Rightarrow> 'b list result" where
  "gen_list f [] = Inr []"
| "gen_list f (x # xs) =
     rbind (f x) (\<lambda>y. rbind (gen_list f xs) (\<lambda>ys. Inr (y # ys)))"

subsection \<open>Vectors\<close>

text \<open>
  Modelled from the spec: \<^verbatim>\<open>Vector\<close> and \<^verbatim>\<open>distance\<close> are imported from
  \<^verbatim>\<open>ezdxf/algebra/vector.py\<close>, which is not part of the sources at hand. The spec calls
  them ``a 3D coordinate value type with component access and Euclidean distance''.
\<close>

type_synonym Vector = "real \<times> real \<times> real"

fun axis_of :: "Vector \<Rightarrow> nat \<Rightarrow> real" where
  "axis_of (x, y, z) a = (if a = 0 then x else if a = 1 then y else z)"

fun distance :: "Vector \<Rightarrow> Vector \<Rightarrow> real" where
  "distance (x1, y1, z1) (x2, y2, z2) =
     sqrt ((x1 - x2)\<^sup>2 + (y1 - y2)\<^sup>2 + (z1 - z2)\<^sup>2)"

subsection \<open>Knot vectors\<close>

text \<open>\<^verbatim>\<open>one_based_array\<close>: a dummy \<^verbatim>\<open>0.0\<close> in front of the decorated values.\<close>

definition one_based_array :: "'b \<Rightarrow> ('a \<Rightarrow> 'b) \<Rightarrow> 'a list \<Rightarrow> 'b list" where
  "one_based_array dummy decor vals = dummy # map decor vals"

text \<open>
  \<^verbatim>\<open>knot_open_uniform\<close>: in iteration \<open>i\<close> the list has \<open>i\<close> entries, so \<^verbatim>\<open>x[i-1]\<close> is
  always in range (lemma \<open>knot_open_uniform_loop\<close> below gives the list it builds).
\<close>

definition knot_open_uniform_step :: "nat \<Rightarrow> nat \<Rightarrow> real list \<Rightarrow> nat \<Rightarrow> real list" where
  "knot_open_uniform_step order nplus2 x i =
     (if order < i \<and> i < nplus2 then x @ [x ! (i - 1) + 1] else x @ [x ! (i - 1)])"

definition knot_open_uniform :: "nat \<Rightarrow> nat \<Rightarrow> real list" where
  "knot_open_uniform n order =
     (let nplusc = n + order; nplus2 = n + 2
      in foldl (knot_open_uniform_step order nplus2) [0, 0] [2..<nplusc + 1])"

definition knot_uniform :: "nat \<Rightarrow> nat \<Rightarrow> real list" where
  "knot_uniform n order =
     (let nplusc = n + order in [0, 0] @ map real [1..<nplusc])"

text \<open>
  \<^verbatim>\<open>knot_closed\<close>: \<^verbatim>\<open>control_points\<close> is a 1-based array, \<open>n = len - 1\<close> is an integer.
  The imported \<^verbatim>\<open>distance\<close> is the parameter \<open>distf\<close>. The reads \<^verbatim>\<open>control_points[i-1]\<close>
  and \<^verbatim>\<open>control_points[i]\<close> for \<open>i\<close> in \<open>2..n\<close> are in range by the choice of \<open>n\<close>;
  \<^verbatim>\<open>spacing[i]\<close> and the two divisions can raise.
\<close>

definition knot_closed_spacing :: "('p \<Rightarrow> 'p \<Rightarrow> real) \<Rightarrow> 'p list \<Rightarrow> real list" where
  "knot_closed_spacing distf control_points =
     (let n = int (length control_points) - 1
      in map (\<lambda>i. distf (control_points ! (i - 1)) (control_points ! i)) [2..<nat (n + 1)])"

definition knot_closed_step ::
  "real list \<Rightarrow> real \<Rightarrow> int \<Rightarrow> nat \<Rightarrow> real list \<Rightarrow> nat \<Rightarrow> real list result" where
  "knot_closed_step spacing maxc n order x i =
     (let csum = py_sum (take i spacing)
      in rbind (pydiv (real i) (real_of_int (n - int order + 2))) (\<lambda>q.
         rbind (getitem spacing i) (\<lambda>sp.
           let numerator = q * sp + csum
           in rbind (pydiv numerator maxc) (\<lambda>r.
                Inr (x @ [r * real_of_int (n - int order + 2)])))))"

definition knot_closed :: "('p \<Rightarrow> 'p \<Rightarrow> real) \<Rightarrow> 'p list \<Rightarrow> nat \<Rightarrow> real list result" where
  "knot_closed distf control_points order =
     (let n = int (length control_points) - 1;
          spacing = knot_closed_spacing distf control_points;
          maxc = py_sum spacing;
          x = replicate (order + 1) 0
      in rbind (for_loop (knot_closed_step spacing maxc n order) x
                  [1..<nat (n - int order + 2)]) (\<lambda>x'.
           Inr (x' @ replicate (order - 1) (real_of_int (n - int order + 2)))))"

subsection \<open>Curve objects\<close>

datatype spline_class = BSpline | BSplineU | DBSpline | DBSplineU | RBSpline | RBSplineU

text \<open>
  The attributes of a curve object. \<open>control_points\<close> is \<^verbatim>\<open>_control_points\<close> (1-based),
  \<open>cp_count\<close> is \<^verbatim>\<open>_cp_count\<close>; \<open>weights\<close> (1-based) exists in the rational classes only
  and is \<open>[]\<close> otherwise, where it is never read.
\<close>

record spline =
  cls :: spline_class
  control_points :: "Vector list"
  cp_count :: nat
  order :: nat
  nplusc :: nat
  knots :: "real list"
  weights :: "real list"

text \<open>The classes that inherit \<^verbatim>\<open>_knots\<close> and \<^verbatim>\<open>max_t\<close> from \<^verbatim>\<open>BSplineU\<close>.\<close>

fun is_uniform :: "spline_class \<Rightarrow> bool" where
  "is_uniform BSplineU = True"
| "is_uniform DBSplineU = True"
| "is_uniform RBSplineU = True"
| "is_uniform _ = False"

fun is_rational :: "spline_class \<Rightarrow> bool" where
  "is_rational RBSpline = True"
| "is_rational RBSplineU = True"
| "is_rational _ = False"

definition default_knots :: "spline_class \<Rightarrow> nat \<Rightarrow> nat \<Rightarrow> real list" where
  "default_knots c n k = (if is_uniform c then knot_uniform n k else knot_open_uniform n k)"

text \<open>
  \<^verbatim>\<open>BSpline.__init__\<close>, run for an object of class \<open>c\<close>. It has no raise. The control
  points are given as vectors, so the decorator \<^verbatim>\<open>Vector\<close> is the identity; the placeholder
  \<^verbatim>\<open>0.0\<close> at index 0 of \<^verbatim>\<open>_control_points\<close> is \<open>(0, 0, 0)\<close> in the model and is never read.
\<close>

definition BSpline_init ::
  "spline_class \<Rightarrow> Vector list \<Rightarrow> nat \<Rightarrow> real list option \<Rightarrow> spline result" where
  "BSpline_init c cps k kn =
     Inr \<lparr> cls = c,
           control_points = one_based_array (0, 0, 0) (\<lambda>v. v) cps,
           cp_count = length cps,
           order = k,
           nplusc = length cps + k,
           knots = (case kn of None \<Rightarrow> default_knots c (length cps) k | Some ks \<Rightarrow> ks),
           weights = [] \<rparr>"

text \<open>\<^verbatim>\<open>RBSpline.__init__\<close>: the count check comes first.\<close>

definition RBSpline_init :: "Vector list \<Rightarrow> real list \<Rightarrow> nat \<Rightarrow> spline result" where
  "RBSpline_init cps ws k =
     (if length cps \<noteq> length ws then Inl ValueError
      else rbind (BSpline_init RBSpline cps k None) (\<lambda>s.
             Inr (s\<lparr>weights := one_based_array 0 (\<lambda>w. w) ws\<rparr>)))"

text \<open>\<^verbatim>\<open>RBSplineU.__init__\<close>: no count check.\<close>

definition RBSplineU_init :: "Vector list \<Rightarrow> real list \<Rightarrow> nat \<Rightarrow> spline result" where
  "RBSplineU_init cps ws k =
     rbind (BSpline_init RBSplineU cps k None) (\<lambda>s.
       Inr (s\<lparr>weights := one_based_array 0 (\<lambda>w. w) ws\<rparr>))"

text \<open>\<^verbatim>\<open>max_t\<close>: \<^verbatim>\<open>knots[nplusc]\<close>, overridden by \<^verbatim>\<open>float(_cp_count)\<close> in \<^verbatim>\<open>BSplineU\<close>.\<close>

definition max_t :: "spline \<Rightarrow> real result" where
  "max_t s = (if is_uniform (cls s) then Inr (real (cp_count s))
              else getitem (knots s) (nplusc s))"

subsection \<open>The basis recursion, value form\<close>

text \<open>
  \<^verbatim>\<open>create_nbasis\<close>. The chained comparison \<^verbatim>\<open>knots[i] <= t < knots[i+1]\<close> reads
  \<^verbatim>\<open>knots[i+1]\<close> only when \<^verbatim>\<open>knots[i] <= t\<close>.
\<close>

definition first_order :: "real list \<Rightarrow> real \<Rightarrow> nat \<Rightarrow> real result" where
  "first_order kn t i =
     rbind (getitem kn i) (\<lambda>a.
       if a \<le> t then rbind (getitem kn (i + 1)) (\<lambda>b. Inr (if t < b then 1 else 0))
       else Inr 0)"

definition create_nbasis :: "spline \<Rightarrow> real \<Rightarrow> real list result" where
  "create_nbasis s t =
     rbind (gen_list (first_order (knots s) t) [1..<nplusc s]) (\<lambda>vs. Inr (0 # vs))"

text \<open>
  The term \<^verbatim>\<open>(num * g) / (knots[hi] - knots[lo]) if g != 0.0 else 0.0\<close> of the recursion,
  with \<open>g = xs[j]\<close> the guarding value and \<open>num\<close> computed from the knots that the
  numerator reads. All list reads come before the division.
\<close>

definition guarded ::
  "real list \<Rightarrow> real list \<Rightarrow> nat \<Rightarrow> (real \<Rightarrow> real \<Rightarrow> real) \<Rightarrow> nat \<Rightarrow> nat \<Rightarrow> nat \<Rightarrow> real result" where
  "guarded kn xs j num r hi lo =
     rbind (getitem xs j) (\<lambda>g.
       if g \<noteq> 0 then
         rbind (getitem kn r) (\<lambda>kr.
         rbind (getitem kn hi) (\<lambda>khi.
         rbind (getitem kn lo) (\<lambda>klo. pydiv (num kr g) (khi - klo))))
       else Inr 0)"

text \<open>One pass of the inner loop body of \<^verbatim>\<open>BSpline.basis\<close>, for order \<open>k\<close> and index \<open>i\<close>.\<close>

definition basis_step :: "real list \<Rightarrow> real \<Rightarrow> nat \<Rightarrow> real list \<Rightarrow> nat \<Rightarrow> real list result" where
  "basis_step kn t k nbasis i =
     rbind (guarded kn nbasis i (\<lambda>ki g. (t - ki) * g) i (i + k - 1) i) (\<lambda>d.
     rbind (guarded kn nbasis (i + 1) (\<lambda>kik g. (kik - t) * g) (i + k) (i + k) (i + 1)) (\<lambda>e.
       setitem nbasis i (d + e)))"

definition basis_level :: "real list \<Rightarrow> real \<Rightarrow> nat \<Rightarrow> real list \<Rightarrow> nat \<Rightarrow> real list result" where
  "basis_level kn t npc nbasis k = for_loop (basis_step kn t k) nbasis [1..<npc - k + 1]"

text \<open>\<^verbatim>\<open>BSpline.basis\<close>.\<close>

definition BSpline_basis :: "spline \<Rightarrow> real \<Rightarrow> real list result" where
  "BSpline_basis s t =
     rbind (create_nbasis s t) (\<lambda>nbasis0.
     rbind (for_loop (basis_level (knots s) t (nplusc s)) nbasis0 [2..<order s + 1]) (\<lambda>nbasis.
     rbind (getitem (knots s) (nplusc s)) (\<lambda>last_knot.
       if t = last_knot then setitem nbasis (cp_count s) 1 else Inr nbasis)))"

subsection \<open>Rational curves\<close>

definition weighted_product :: "real list \<Rightarrow> real list \<Rightarrow> nat \<Rightarrow> real result" where
  "weighted_product nbasis ws i =
     rbind (getitem nbasis i) (\<lambda>b. rbind (getitem ws i) (\<lambda>w. Inr (b * w)))"

text \<open>
  \<^verbatim>\<open>weighting\<close>. Floats are real numbers in this model, so the sum and the test
  \<^verbatim>\<open>s != 0.0\<close> are exact here, where the code adds and tests rounded doubles: the model
  and the code can take different branches when the exact sum is zero and the rounded one
  is not, or the reverse. What is proved below about the rational classes (the length of
  the vector, the point as a sum over it) holds in either branch.
\<close>

definition weighting :: "real list \<Rightarrow> real list \<Rightarrow> nat \<Rightarrow> real list result" where
  "weighting nbasis ws npts =
     rbind (gen_list (weighted_product nbasis ws) [1..<npts + 1]) (\<lambda>ps.
       let s = py_sum ps
       in if s = 0 then Inr (replicate (npts + 1) 0)
          else rbind (gen_list (\<lambda>i. rbind (weighted_product nbasis ws i) (\<lambda>p. pydiv p s))
                        [1..<npts + 1]) (\<lambda>rs.
                 Inr (one_based_array 0 (\<lambda>r. r) rs)))"

text \<open>\<^verbatim>\<open>basis\<close>, as overridden by \<^verbatim>\<open>RBSpline\<close> and \<^verbatim>\<open>RBSplineU\<close>.\<close>

definition basis :: "spline \<Rightarrow> real \<Rightarrow> real list result" where
  "basis s t =
     (if is_rational (cls s)
      then rbind (BSpline_basis s t) (\<lambda>nbasis. weighting nbasis (weights s) (cp_count s))
      else BSpline_basis s t)"

subsection \<open>Points of a curve\<close>

text \<open>The snap of \<^verbatim>\<open>point\<close>: \<^verbatim>\<open>if (max_t - t) < 5e-6: t = max_t\<close>.\<close>

definition snap :: "real \<Rightarrow> real \<Rightarrow> real" where
  "snap mt t = (if mt - t < 5 / 10 ^ 6 then mt else t)"

definition axis_value :: "real list \<Rightarrow> Vector list \<Rightarrow> nat \<Rightarrow> nat \<Rightarrow> real result" where
  "axis_value nbasis cps npts1 a =
     rbind (gen_list (\<lambda>i. rbind (getitem nbasis i) (\<lambda>b.
                           rbind (getitem cps i) (\<lambda>p. Inr (b * axis_of p a))))
              [1..<npts1])
       (\<lambda>vs. Inr (py_sum vs))"

text \<open>\<^verbatim>\<open>BSpline.point\<close> (classes \<^verbatim>\<open>BSpline\<close>, \<^verbatim>\<open>BSplineU\<close>, \<^verbatim>\<open>RBSpline\<close>, \<^verbatim>\<open>RBSplineU\<close>).\<close>

definition point :: "spline \<Rightarrow> real \<Rightarrow> Vector result" where
  "point s t0 =
     rbind (max_t s) (\<lambda>mt.
       let t = snap mt t0
       in rbind (basis s t) (\<lambda>nbasis.
          rbind (axis_value nbasis (control_points s) (cp_count s + 1) 0) (\<lambda>x.
          rbind (axis_value nbasis (control_points s) (cp_count s + 1) 1) (\<lambda>y.
          rbind (axis_value nbasis (control_points s) (cp_count s + 1) 2) (\<lambda>z.
            Inr (x, y, z))))))"

subsection \<open>The basis recursion, derivative form\<close>

text \<open>\<^verbatim>\<open>create_nbasis2\<close> of \<^verbatim>\<open>DBSpline\<close> and of \<^verbatim>\<open>DBSplineU\<close>.\<close>

definition create_nbasis2 :: "spline \<Rightarrow> real \<Rightarrow> real list result" where
  "create_nbasis2 s t =
     (if is_uniform (cls s) then
        (let npts = cp_count s
         in rbind (create_nbasis s t) (\<lambda>nbasis.
            rbind (getitem (knots s) (npts + 1)) (\<lambda>kn1.
              if t = kn1 then
                rbind (setitem nbasis npts 1) (\<lambda>nbasis'. setitem nbasis' (npts + 1) 0)
              else Inr nbasis)))
      else
        rbind (create_nbasis s t) (\<lambda>nbasis.
        rbind (getitem (knots s) (nplusc s)) (\<lambda>last_knot.
          if t = last_knot then setitem nbasis (cp_count s) 1 else Inr nbasis)))"

text \<open>
  The inner loop body of \<^verbatim>\<open>dbasis\<close>; the state is \<open>(nbasis, d1nbasis, d2nbasis)\<close>. All
  twelve terms are computed from the old state before the three assignments.
\<close>

definition dbasis_step ::
  "real list \<Rightarrow> real \<Rightarrow> nat \<Rightarrow> real list \<times> real list \<times> real list \<Rightarrow> nat
     \<Rightarrow> (real list \<times> real list \<times> real list) result" where
  "dbasis_step kn t k st i =
     (case st of (nbasis, d1nbasis, d2nbasis) \<Rightarrow>
     rbind (guarded kn nbasis i (\<lambda>ki g. (t - ki) * g) i (i + k - 1) i) (\<lambda>b1.
     rbind (guarded kn nbasis (i + 1) (\<lambda>kik g. (kik - t) * g) (i + k) (i + k) (i + 1)) (\<lambda>b2.
     rbind (guarded kn nbasis i (\<lambda>_ g. g) i (i + k - 1) i) (\<lambda>f1.
     rbind (guarded kn nbasis (i + 1) (\<lambda>_ g. - g) (i + k) (i + k) (i + 1)) (\<lambda>f2.
     rbind (guarded kn d1nbasis i (\<lambda>ki g. (t - ki) * g) i (i + k - 1) i) (\<lambda>f3.
     rbind (guarded kn d1nbasis (i + 1) (\<lambda>kik g. (kik - t) * g) (i + k) (i + k) (i + 1)) (\<lambda>f4.
     rbind (guarded kn d1nbasis i (\<lambda>_ g. 2 * g) i (i + k - 1) i) (\<lambda>s1.
     rbind (guarded kn d1nbasis (i + 1) (\<lambda>_ g. - 2 * g) (i + k) (i + k) (i + 1)) (\<lambda>s2.
     rbind (guarded kn d2nbasis i (\<lambda>ki g. (t - ki) * g) i (i + k - 1) i) (\<lambda>s3.
     rbind (guarded kn d2nbasis (i + 1) (\<lambda>kik g. (kik - t) * g) (i + k) (i + k) (i + 1)) (\<lambda>s4.
     rbind (setitem nbasis i (b1 + b2)) (\<lambda>nbasis'.
     rbind (setitem d1nbasis i (f1 + f2 + f3 + f4)) (\<lambda>d1nbasis'.
     rbind (setitem d2nbasis i (s1 + s2 + s3 + s4)) (\<lambda>d2nbasis'.
       Inr (nbasis', d1nbasis', d2nbasis')))))))))))))))"

definition dbasis_level ::
  "real list \<Rightarrow> real \<Rightarrow> nat \<Rightarrow> real list \<times> real list \<times> real list \<Rightarrow> nat
     \<Rightarrow> (real list \<times> real list \<times> real list) result" where
  "dbasis_level kn t npc st k = for_loop (dbasis_step kn t k) st [1..<npc - k + 1]"

text \<open>\<^verbatim>\<open>DBSplineMixin.dbasis\<close>.\<close>

definition dbasis :: "spline \<Rightarrow> real \<Rightarrow> (real list \<times> real list \<times> real list) result" where
  "dbasis s t =
     rbind (create_nbasis2 s t) (\<lambda>nbasis.
       let d1nbasis = replicate (nplusc s + 1) 0;
           d2nbasis = d1nbasis
       in for_loop (dbasis_level (knots s) t (nplusc s)) (nbasis, d1nbasis, d2nbasis)
            [2..<order s + 1])"

text \<open>
  \<^verbatim>\<open>DBSplineMixin.point\<close> (classes \<^verbatim>\<open>DBSpline\<close>, \<^verbatim>\<open>DBSplineU\<close>): the point, the first and
  the second derivative. Its loops can raise \<open>IndexError\<close> only, so the order of their
  reads does not show in the result.
\<close>

definition weighted_triple :: "real list \<Rightarrow> Vector list \<Rightarrow> nat \<Rightarrow> Vector result" where
  "weighted_triple nb cps npts1 =
     rbind (axis_value nb cps npts1 0) (\<lambda>x.
     rbind (axis_value nb cps npts1 1) (\<lambda>y.
     rbind (axis_value nb cps npts1 2) (\<lambda>z. Inr (x, y, z))))"

definition dpoint :: "spline \<Rightarrow> real \<Rightarrow> (Vector \<times> Vector \<times> Vector) result" where
  "dpoint s t0 =
     rbind (max_t s) (\<lambda>mt.
       let t = snap mt t0
       in rbind (dbasis s t) (\<lambda>(nbasis, d1nbasis, d2nbasis).
          rbind (weighted_triple nbasis (control_points s) (cp_count s + 1)) (\<lambda>p.
          rbind (weighted_triple d1nbasis (control_points s) (cp_count s + 1)) (\<lambda>d1.
          rbind (weighted_triple d2nbasis (control_points s) (cp_count s + 1)) (\<lambda>d2.
            Inr (p, d1, d2))))))"

subsection \<open>The recursion of the module's docstring\<close>

text \<open>
  Equation (89) of the docstring of the module, \<open>N\<^sub>i\<^sub>,\<^sub>k(t)\<close>, over the 1-based knot list,
  each quotient under the zero guard that the code puts on it. The loops of
  \<^verbatim>\<open>BSpline.basis\<close> are compared with it below.
\<close>

fun cox_de_boor :: "real list \<Rightarrow> real \<Rightarrow> nat \<Rightarrow> nat \<Rightarrow> real" where
  "cox_de_boor kn t 0 i = 0"
| "cox_de_boor kn t (Suc 0) i = (if kn ! i \<le> t \<and> t < kn ! (i + 1) then 1 else 0)"
| "cox_de_boor kn t (Suc (Suc k)) i =
     (if cox_de_boor kn t (Suc k) i \<noteq> 0
      then (t - kn ! i) * cox_de_boor kn t (Suc k) i / (kn ! (i + Suc k) - kn ! i) else 0) +
     (if cox_de_boor kn t (Suc k) (i + 1) \<noteq> 0
      then (kn ! (i + Suc (Suc k)) - t) * cox_de_boor kn t (Suc k) (i + 1)
             / (kn ! (i + Suc (Suc k)) - kn ! (i + 1)) else 0)"

text \<open>
  The buffer \<^verbatim>\<open>nbasis\<close> after the passes for the orders up to \<open>k\<close>: entry \<open>i\<close> was last
  written by the pass for order \<open>min k (npc - i)\<close>.
\<close>

definition basis_buffer :: "real list \<Rightarrow> real \<Rightarrow> nat \<Rightarrow> nat \<Rightarrow> real list" where
  "basis_buffer kn t npc k = 0 # map (\<lambda>i. cox_de_boor kn t (min k (npc - i)) i) [1..<npc]"

text \<open>The same buffer in the middle of the pass for order \<open>k\<close>, entries \<open>1..m\<close> written.\<close>

definition basis_buffer_mid :: "real list \<Rightarrow> real \<Rightarrow> nat \<Rightarrow> nat \<Rightarrow> nat \<Rightarrow> real list" where
  "basis_buffer_mid kn t npc k m =
     0 # map (\<lambda>i. cox_de_boor kn t (min (if i \<le> m then k else k - 1) (npc - i)) i) [1..<npc]"

text \<open>
  The state \<open>(nbasis, d1nbasis, d2nbasis)\<close> of \<^verbatim>\<open>dbasis\<close> on a curve of \<open>n\<close> control points
  evaluated at its last knot, in the pass for order \<open>j\<close> before index \<open>i\<close>: the lengths of
  the three buffers, and where their non-zero entries can be. An entry already written
  by this pass (index below \<open>i\<close>) is non-zero only from index \<open>n + 1 - j\<close> to \<open>n\<close>, an entry
  not yet written only from \<open>n + 2 - j\<close> to \<open>n\<close>.
\<close>

definition dstate_ok ::
  "nat \<Rightarrow> nat \<Rightarrow> nat \<Rightarrow> nat \<Rightarrow> real list \<times> real list \<times> real list \<Rightarrow> bool" where
  "dstate_ok npc n j i st =
     (case st of (nb, d1, d2) \<Rightarrow>
        length nb = npc \<and> length d1 = npc + 1 \<and> length d2 = npc + 1 \<and>
        (\<forall>g < npc. nb ! g \<noteq> 0 \<or> d1 ! g \<noteq> 0 \<or> d2 ! g \<noteq> 0 \<longrightarrow>
           g \<le> n \<and> n + 1 \<le> g + j \<and> (i \<le> g \<longrightarrow> n + 2 \<le> g + j)))"

text \<open>The lengths alone.\<close>

definition dstate_lengths :: "nat \<Rightarrow> real list \<times> real list \<times> real list \<Rightarrow> bool" where
  "dstate_lengths npc st =
     (case st of (nb, d1, d2) \<Rightarrow> length nb = npc \<and> length d1 = npc + 1 \<and> length d2 = npc + 1)"

text \<open>
  Calling a class: \<^verbatim>\<open>c(control_points, order, knots)\<close> for the four non-rational classes,
  which inherit \<^verbatim>\<open>BSpline.__init__\<close>, and \<^verbatim>\<open>c(control_points, weights, order)\<close> for the two
  rational classes, whose constructors take no knots.
\<close>

definition new_curve ::
  "spline_class \<Rightarrow> Vector list \<Rightarrow> real list \<Rightarrow> nat \<Rightarrow> real list option \<Rightarrow> spline result" where
  "new_curve c cps ws k kn =
     (if c = RBSpline then RBSpline_init cps ws k
      else if c = RBSplineU then RBSplineU_init cps ws k
      else BSpline_init c cps k kn)"

text \<open>
  The words of the spec, ``\<^verbatim>\<open>point(t) = \<Sigma> basis[i] * control_point[i]\<close>'': the sum over
  \<open>i = 1..n\<close> of entry \<open>i\<close> of a basis vector times control point \<open>i\<close>, axis by axis.
  \<open>cps\<close> are the \<open>n\<close> control points as the caller gives them, so control point \<open>i\<close> is
  \<open>cps ! (i - 1)\<close>.
\<close>

definition weighted_sum :: "real list \<Rightarrow> Vector list \<Rightarrow> Vector" where
  "weighted_sum nb cps =
     (\<Sum>i\<leftarrow>[1..<length cps + 1]. nb ! i * axis_of (cps ! (i - 1)) 0,
      \<Sum>i\<leftarrow>[1..<length cps + 1]. nb ! i * axis_of (cps ! (i - 1)) 1,
      \<Sum>i\<leftarrow>[1..<length cps + 1]. nb ! i * axis_of (cps ! (i - 1)) 2)"

text \<open>The classes whose \<^verbatim>\<open>point\<close> is \<^verbatim>\<open>DBSplineMixin.point\<close>.\<close>

fun is_derivative :: "spline_class \<Rightarrow> bool" where
  "is_derivative DBSpline = True"
| "is_derivative DBSplineU = True"
| "is_derivative _ = False"

section \<open>Properties\<close>

subsection \<open>The host-language operations\<close>

lemma rbind_Inr [simp]: "rbind (Inr v) f = f v"
  by (simp add: rbind_def)

lemma rbind_Inl [simp]: "rbind (Inl e) f = Inl e"
  by (simp add: rbind_def)

lemma getitem_in_range: "i < length xs \<Longrightarrow> getitem xs i = Inr (xs ! i)"
  by (simp add: getitem_def)

lemma setitem_in_range: "i < length xs \<Longrightarrow> setitem xs i v = Inr (xs[i := v])"
  by (simp add: setitem_def)

lemma foldl_plus_real: "foldl (+) a xs = a + sum_list (xs :: real list)"
  by (induction xs arbitrary: a) simp_all

lemma py_sum_sum_list: "py_sum xs = sum_list xs"
  by (simp add: py_sum_def foldl_plus_real)

lemma for_loop_append:
  "for_loop body s (xs @ ys) = rbind (for_loop body s xs) (\<lambda>s'. for_loop body s' ys)"
  by (induction xs arbitrary: s) (simp_all add: rbind_def split: sum.splits)

lemma gen_list_total:
  "(\<And>x. x \<in> set xs \<Longrightarrow> f x = Inr (g x)) \<Longrightarrow> gen_list f xs = Inr (map g xs)"
  by (induction xs) simp_all

lemma rbind_eq_Inr: "rbind m f = Inr y \<longleftrightarrow> (\<exists>x. m = Inr x \<and> f x = Inr y)"
  by (cases m) (simp_all add: rbind_def)

lemma setitem_eq_Inr: "setitem xs i v = Inr ys \<longleftrightarrow> i < length xs \<and> ys = xs[i := v]"
  by (auto simp: setitem_def)

lemma for_loop_preserves:
  assumes "\<And>s x s'. P s \<Longrightarrow> body s x = Inr s' \<Longrightarrow> P s'"
  shows "P s \<Longrightarrow> for_loop body s xs = Inr s' \<Longrightarrow> P s'"
proof (induction xs arbitrary: s)
  case Nil
  then show ?case by simp
next
  case (Cons x xs)
  from Cons.prems(2) obtain s1 where s1: "body s x = Inr s1" "for_loop body s1 xs = Inr s'"
    by (auto simp: rbind_eq_Inr)
  from assms[OF Cons.prems(1) s1(1)] have "P s1" .
  from Cons.IH[OF this s1(2)] show ?case .
qed

subsection \<open>The value-form loops compute the recursion of the docstring\<close>

text \<open>
  A knot vector is non-decreasing when \<open>sorted (tl kn)\<close>: entry 0 of the 1-based list is a
  placeholder that no loop reads.
\<close>

lemma knots_mono:
  assumes "sorted (tl kn)" "1 \<le> i" "i \<le> j" "j < length kn"
  shows "kn ! i \<le> kn ! j"
proof -
  from assms obtain x xs where kn: "kn = x # xs" by (cases kn) auto
  from assms kn have "xs ! (i - 1) \<le> xs ! (j - 1)"
    by (intro sorted_nth_mono) auto
  with assms kn show ?thesis by (simp add: nth_Cons')
qed

lemma cox_de_boor_support_Suc:
  "sorted (tl kn) \<Longrightarrow> 1 \<le> i \<Longrightarrow> i + Suc k < length kn \<Longrightarrow> cox_de_boor kn t (Suc k) i \<noteq> 0
     \<Longrightarrow> kn ! i \<le> t \<and> t < kn ! (i + Suc k)"
proof (induction k arbitrary: i)
  case 0
  then show ?case by (simp split: if_splits)
next
  case (Suc k)
  note p = Suc.prems
  have m1: "kn ! i \<le> kn ! (i + 1)" using p by (intro knots_mono) auto
  have m2: "kn ! (i + Suc k) \<le> kn ! (i + Suc (Suc k))" using p by (intro knots_mono) auto
  from p(4) consider "cox_de_boor kn t (Suc k) i \<noteq> 0" | "cox_de_boor kn t (Suc k) (i + 1) \<noteq> 0"
    by (auto split: if_splits)
  then show ?case
  proof cases
    case 1
    have "kn ! i \<le> t \<and> t < kn ! (i + Suc k)"
      using Suc.IH[of i] 1 p by simp
    with m2 show ?thesis by simp
  next
    case 2
    have "kn ! (i + 1) \<le> t \<and> t < kn ! (i + 1 + Suc k)"
      using Suc.IH[of "i + 1"] 2 p by simp
    with m1 show ?thesis by simp
  qed
qed

lemma cox_de_boor_support:
  "sorted (tl kn) \<Longrightarrow> 1 \<le> i \<Longrightarrow> i + k < length kn \<Longrightarrow> cox_de_boor kn t k i \<noteq> 0
     \<Longrightarrow> kn ! i \<le> t \<and> t < kn ! (i + k)"
  using cox_de_boor_support_Suc[of kn i "k - 1" t] by (cases k) simp_all

lemma guarded_value:
  assumes "j < length xs" "r < length kn" "hi < length kn" "lo < length kn"
    and "xs ! j \<noteq> 0 \<Longrightarrow> kn ! hi \<noteq> kn ! lo"
  shows "guarded kn xs j num r hi lo =
           Inr (if xs ! j \<noteq> 0 then num (kn ! r) (xs ! j) / (kn ! hi - kn ! lo) else 0)"
  using assms by (simp add: guarded_def getitem_in_range pydiv_def)

lemma length_basis_buffer_mid [simp]: "length (basis_buffer_mid kn t npc k m) = max 1 npc"
  by (simp add: basis_buffer_mid_def)

lemma length_basis_buffer [simp]: "length (basis_buffer kn t npc k) = max 1 npc"
  by (simp add: basis_buffer_def)

lemma nth_basis_buffer_mid:
  "1 \<le> i \<Longrightarrow> i < npc \<Longrightarrow>
     basis_buffer_mid kn t npc k m ! i =
       cox_de_boor kn t (min (if i \<le> m then k else k - 1) (npc - i)) i"
  by (cases i) (simp_all add: basis_buffer_mid_def)

lemma nth_basis_buffer:
  "1 \<le> i \<Longrightarrow> i < npc \<Longrightarrow> basis_buffer kn t npc k ! i = cox_de_boor kn t (min k (npc - i)) i"
  by (cases i) (simp_all add: basis_buffer_def)

lemma basis_buffer_mid_0: "1 \<le> k \<Longrightarrow> basis_buffer_mid kn t npc k 0 = basis_buffer kn t npc (k - 1)"
  by (simp add: basis_buffer_mid_def basis_buffer_def)

lemma basis_buffer_mid_full:
  "npc - k \<le> m \<Longrightarrow> basis_buffer_mid kn t npc k m = basis_buffer kn t npc k"
proof -
  assume a: "npc - k \<le> m"
  have "min (if i \<le> m then k else k - 1) (npc - i) = min k (npc - i)" if "i < npc" for i
    using a that by (auto simp: min_def)
  then show ?thesis by (simp add: basis_buffer_mid_def basis_buffer_def)
qed

lemma basis_step_buffer:
  assumes srt: "sorted (tl kn)" and len: "npc < length kn" and k: "2 \<le> k"
    and m: "Suc m + k \<le> npc"
  shows "basis_step kn t k (basis_buffer_mid kn t npc k m) (Suc m) =
           Inr (basis_buffer_mid kn t npc k (Suc m))"
proof -
  let ?b = "basis_buffer_mid kn t npc k m"
  let ?i = "Suc m"
  obtain k' where k': "k = Suc (Suc k')" using k by (cases k; cases "k - 1") auto
  define a where "a = ?b ! ?i"
  define b where "b = ?b ! (?i + 1)"
  have "min (if ?i \<le> m then k else k - 1) (npc - ?i) = Suc k'"
    using m k' by auto
  then have bi: "a = cox_de_boor kn t (Suc k') ?i"
    using m k' by (simp add: nth_basis_buffer_mid a_def)
  have "min (if ?i + 1 \<le> m then k else k - 1) (npc - (?i + 1)) = Suc k'"
    using m k' by auto
  then have bi1: "b = cox_de_boor kn t (Suc k') (?i + 1)"
    using m k' by (simp add: nth_basis_buffer_mid b_def)
  have d_ne: "kn ! (?i + k - 1) \<noteq> kn ! ?i" if "a \<noteq> 0"
    using cox_de_boor_support[OF srt, of ?i "Suc k'" t] that bi m k' len by auto
  have e_ne: "kn ! (?i + k) \<noteq> kn ! (?i + 1)" if "b \<noteq> 0"
    using cox_de_boor_support[OF srt, of "?i + 1" "Suc k'" t] that bi1 m k' len by auto
  have d: "guarded kn ?b ?i (\<lambda>ki g. (t - ki) * g) ?i (?i + k - 1) ?i =
             Inr (if a \<noteq> 0 then (t - kn ! ?i) * a / (kn ! (?i + k - 1) - kn ! ?i) else 0)"
    unfolding a_def using m k len d_ne[unfolded a_def] by (intro guarded_value) auto
  have e: "guarded kn ?b (?i + 1) (\<lambda>kik g. (kik - t) * g) (?i + k) (?i + k) (?i + 1) =
             Inr (if b \<noteq> 0 then (kn ! (?i + k) - t) * b / (kn ! (?i + k) - kn ! (?i + 1)) else 0)"
    unfolding b_def using m k len e_ne[unfolded b_def] by (intro guarded_value) auto
  have new: "(if a \<noteq> 0 then (t - kn ! ?i) * a / (kn ! (?i + k - 1) - kn ! ?i) else 0) +
             (if b \<noteq> 0 then (kn ! (?i + k) - t) * b / (kn ! (?i + k) - kn ! (?i + 1)) else 0)
             = cox_de_boor kn t k ?i"
    by (simp add: bi bi1 k')
  have upd: "?b[?i := cox_de_boor kn t k ?i] = basis_buffer_mid kn t npc k (Suc m)"
  proof (rule nth_equalityI)
    show "length (?b[?i := cox_de_boor kn t k ?i]) = length (basis_buffer_mid kn t npc k (Suc m))"
      by simp
  next
    fix j assume "j < length (?b[?i := cox_de_boor kn t k ?i])"
    then have j: "j < max 1 npc" by simp
    show "?b[?i := cox_de_boor kn t k ?i] ! j = basis_buffer_mid kn t npc k (Suc m) ! j"
    proof (cases "j = 0")
      case True
      then show ?thesis by (simp add: basis_buffer_mid_def)
    next
      case False
      then have j1: "1 \<le> j" "j < npc" using j by auto
      show ?thesis
      proof (cases "j = ?i")
        case True
        have "min (if ?i \<le> Suc m then k else k - 1) (npc - ?i) = k"
          using m k by auto
        then show ?thesis using True j1 m k by (simp add: nth_basis_buffer_mid)
      next
        case False
        then show ?thesis using j1 by (auto simp add: nth_basis_buffer_mid)
      qed
    qed
  qed
  have in_range: "?i < length ?b" using m k by simp
  show ?thesis
    unfolding basis_step_def d e rbind_Inr new
    using in_range upd by (simp add: setitem_in_range)
qed

lemma basis_level_buffer_partial:
  assumes srt: "sorted (tl kn)" and len: "npc < length kn" and k: "2 \<le> k"
  shows "m + k \<le> npc \<Longrightarrow>
           for_loop (basis_step kn t k) (basis_buffer_mid kn t npc k 0) [1..<m + 1] =
             Inr (basis_buffer_mid kn t npc k m)"
proof (induction m)
  case 0
  show ?case by simp
next
  case (Suc m)
  have "[1..<Suc m + 1] = [1..<m + 1] @ [Suc m]" by simp
  then show ?case
    using Suc basis_step_buffer[OF srt len k, of m t]
    by (simp add: for_loop_append del: upt_Suc)
qed

lemma basis_level_buffer:
  assumes srt: "sorted (tl kn)" and len: "npc < length kn" and k: "2 \<le> k"
  shows "basis_level kn t npc (basis_buffer kn t npc (k - 1)) k = Inr (basis_buffer kn t npc k)"
proof -
  have "for_loop (basis_step kn t k) (basis_buffer_mid kn t npc k 0) [1..<(npc - k) + 1] =
             Inr (basis_buffer_mid kn t npc k (npc - k))"
  proof (cases "k \<le> npc")
    case True
    then show ?thesis using basis_level_buffer_partial[OF srt len k, of "npc - k" t] by simp
  next
    case False
    then show ?thesis by simp
  qed
  then show ?thesis
    using k by (simp add: basis_level_def basis_buffer_mid_0 basis_buffer_mid_full)
qed

lemma basis_levels_buffer:
  assumes srt: "sorted (tl kn)" and len: "npc < length kn"
  shows "for_loop (basis_level kn t npc) (basis_buffer kn t npc 1) [2..<K + 2] =
           Inr (basis_buffer kn t npc (K + 1))"
proof (induction K)
  case 0
  show ?case by simp
next
  case (Suc K)
  have "[2..<Suc K + 2] = [2..<K + 2] @ [K + 2]" by simp
  then show ?case
    using Suc basis_level_buffer[OF srt len, of "K + 2" t]
    by (simp add: for_loop_append del: upt_Suc)
qed

lemma create_nbasis_buffer:
  assumes len: "nplusc s < length (knots s)"
  shows "create_nbasis s t = Inr (basis_buffer (knots s) t (nplusc s) 1)"
proof -
  have "first_order (knots s) t i = Inr (cox_de_boor (knots s) t (min 1 (nplusc s - i)) i)"
    if "i \<in> set [1..<nplusc s]" for i
  proof -
    from that have "min 1 (nplusc s - i) = Suc 0" by auto
    then show ?thesis using that len
      by (simp add: first_order_def getitem_in_range)
  qed
  then have "gen_list (first_order (knots s) t) [1..<nplusc s] =
               Inr (map (\<lambda>i. cox_de_boor (knots s) t (min 1 (nplusc s - i)) i) [1..<nplusc s])"
    by (rule gen_list_total)
  then show ?thesis by (simp add: create_nbasis_def basis_buffer_def)
qed

text \<open>
  \<^verbatim>\<open>BSpline.basis\<close> on a non-decreasing knot vector of at least \<open>nplusc + 1\<close> entries:
  no read of \<open>knots\<close> is out of range, no division has a zero divisor, and the buffer
  holds the values of the recursion before the fix-up of the last point.
\<close>

lemma BSpline_basis_value:
  assumes srt: "sorted (tl (knots s))" and len: "nplusc s < length (knots s)"
  shows "BSpline_basis s t =
           (let nb = basis_buffer (knots s) t (nplusc s) (max 1 (order s))
            in if t = knots s ! nplusc s then setitem nb (cp_count s) 1 else Inr nb)"
proof -
  have loop: "for_loop (basis_level (knots s) t (nplusc s)) (basis_buffer (knots s) t (nplusc s) 1)
               [2..<order s + 1] = Inr (basis_buffer (knots s) t (nplusc s) (max 1 (order s)))"
  proof (cases "order s")
    case 0
    then show ?thesis by simp
  next
    case (Suc K)
    then show ?thesis using basis_levels_buffer[OF srt len, of t K] by (simp add: max_def)
  qed
  show ?thesis
    unfolding BSpline_basis_def create_nbasis_buffer[OF len] rbind_Inr loop
      getitem_in_range[OF len]
    by (simp add: Let_def)
qed


subsection \<open>The default knot vectors\<close>

lemma knot_open_uniform_loop:
  "foldl (knot_open_uniform_step k (n + 2)) [0, 0] [2..<m + 2] =
     map (\<lambda>i. real (min i (n + 1) - max 1 k)) [0..<m + 2]"
proof (induction m)
  case 0
  show ?case by (simp add: upt_rec)
next
  case (Suc m)
  have "[2..<Suc m + 2] = [2..<m + 2] @ [m + 2]" by simp
  then show ?case using Suc
    apply (simp add: knot_open_uniform_step_def nth_append del: upt_Suc)
    apply (auto simp: min_def max_def)
    done
qed

lemma knot_open_uniform_closed_form:
  "knot_open_uniform n k = map (\<lambda>i. real (min i (n + 1) - max 1 k)) [0..<max 2 (n + k + 1)]"
proof (cases "n + k")
  case 0
  then show ?thesis by (simp add: knot_open_uniform_def upt_rec)
next
  case (Suc m)
  have "[2..<n + k + 1] = [2..<m + 2]" "max 2 (n + k + 1) = m + 2" using Suc by simp_all
  then show ?thesis
    unfolding knot_open_uniform_def Let_def by (simp only: knot_open_uniform_loop)
qed

lemma knot_uniform_closed_form:
  "knot_uniform n k = map (\<lambda>i. real (i - 1)) [0..<max 2 (n + k + 1)]"
proof (rule nth_equalityI)
  show "length (knot_uniform n k) = length (map (\<lambda>i. real (i - 1)) [0..<max 2 (n + k + 1)])"
    by (auto simp: knot_uniform_def)
next
  fix i assume "i < length (knot_uniform n k)"
  then show "knot_uniform n k ! i = map (\<lambda>i. real (i - 1)) [0..<max 2 (n + k + 1)] ! i"
    by (auto simp: knot_uniform_def nth_Cons' nth_append)
qed

lemma sorted_tl_map_upt:
  assumes "\<And>i j. i \<le> j \<Longrightarrow> f i \<le> (f j :: real)"
  shows "sorted (tl (map f [0..<m]))"
proof -
  have "sorted_wrt (\<lambda>x y. f x \<le> f y) [Suc 0..<m]"
    by (rule sorted_wrt_mono_rel[of _ "(<)"]) (auto intro: assms)
  then show ?thesis by (simp add: map_tl[symmetric] sorted_map)
qed

lemma default_knots_length [simp]: "length (default_knots c n k) = max 2 (n + k + 1)"
  by (simp add: default_knots_def knot_open_uniform_closed_form knot_uniform_closed_form)

lemma default_knots_sorted: "sorted (tl (default_knots c n k))"
  unfolding default_knots_def knot_open_uniform_closed_form knot_uniform_closed_form
  by (auto intro!: sorted_tl_map_upt diff_le_mono min.mono simp del: upt_Suc)

lemma knot_open_uniform_nth:
  assumes "i \<le> n + k"
  shows "knot_open_uniform n k ! i = real (min i (n + 1) - max 1 k)"
proof -
  have "i < max 2 (n + k + 1)" using assms by simp
  then show ?thesis unfolding knot_open_uniform_closed_form by (simp only: nth_map_upt add_0)
qed

lemma knot_uniform_nth:
  assumes "i \<le> n + k"
  shows "knot_uniform n k ! i = real (i - 1)"
proof -
  have "i < max 2 (n + k + 1)" using assms by simp
  then show ?thesis unfolding knot_uniform_closed_form by (simp only: nth_map_upt add_0)
qed

lemma BSpline_basis_returns:
  assumes srt: "sorted (tl (knots s))" and len: "nplusc s < length (knots s)"
    and ix: "cp_count s < max 1 (nplusc s)"
  shows "\<exists>nb. BSpline_basis s t = Inr nb \<and> length nb = max 1 (nplusc s)"
  using ix by (simp add: BSpline_basis_value[OF srt len] Let_def setitem_in_range)


subsection \<open>Construction\<close>

text \<open>The definitions that evaluate the model at a concrete input.\<close>

lemmas eval_defs =
  RBSpline_init_def RBSplineU_init_def BSpline_init_def one_based_array_def default_knots_def
  knot_uniform_def knot_open_uniform_def knot_open_uniform_step_def
  basis_def BSpline_basis_def create_nbasis_def first_order_def basis_level_def basis_step_def
  guarded_def getitem_def setitem_def pydiv_def weighting_def weighted_product_def py_sum_def
  point_def max_t_def snap_def axis_value_def create_nbasis2_def dbasis_def dbasis_level_def
  dbasis_step_def dpoint_def weighted_triple_def
  Let_def upt_rec

lemma BSpline_init_fields:
  "BSpline_init c cps k kn = Inr s \<Longrightarrow>
     cls s = c \<and> cp_count s = length cps \<and> order s = k \<and> nplusc s = length cps + k \<and>
     control_points s = (0, 0, 0) # cps \<and>
     knots s = (case kn of None \<Rightarrow> default_knots c (length cps) k | Some ks \<Rightarrow> ks)"
  by (auto simp: BSpline_init_def one_based_array_def)

lemma new_curve_fields:
  assumes "new_curve c cps ws k kn = Inr s"
  shows "cls s = c \<and> cp_count s = length cps \<and> order s = k \<and> nplusc s = length cps + k \<and>
         control_points s = (0, 0, 0) # cps \<and>
         knots s = (if is_rational c then default_knots c (length cps) k
                    else case kn of None \<Rightarrow> default_knots c (length cps) k | Some ks \<Rightarrow> ks) \<and>
         weights s = (if is_rational c then 0 # ws else []) \<and>
         (c = RBSpline \<longrightarrow> length ws = length cps)"
  using assms
  by (cases c)
     (auto simp: new_curve_def RBSpline_init_def RBSplineU_init_def BSpline_init_def
                 one_based_array_def split: if_splits)

lemma RBSpline_init_checks_counts:
  "(RBSpline_init cps ws k = Inl ValueError) = (length cps \<noteq> length ws)"
  by (simp add: RBSpline_init_def BSpline_init_def)

lemma RBSpline_init_stores_weights:
  "length cps = length ws \<Longrightarrow>
     \<exists>s. RBSpline_init cps ws k = Inr s \<and> length (weights s) = cp_count s + 1 \<and>
         (\<forall>i < length cps. weights s ! (i + 1) = ws ! i)"
  by (simp add: RBSpline_init_def BSpline_init_def one_based_array_def)

lemma RBSplineU_init_never_raises:
  "\<exists>s. RBSplineU_init cps ws k = Inr s \<and> cp_count s = length cps \<and>
       length (weights s) = length ws + 1"
  by (simp add: RBSplineU_init_def BSpline_init_def one_based_array_def)

text \<open>
  Claim C1: a rational curve of either knot convention must be refused with a validation
  error when the numbers of control points and of weights differ. \<^verbatim>\<open>RBSpline.__init__\<close>
  does so (\<open>RBSpline_init_checks_counts\<close>); \<^verbatim>\<open>RBSplineU.__init__\<close> has no such check
  (\<open>RBSplineU_init_never_raises\<close>). With three control points and one weight,
  \<^verbatim>\<open>RBSpline\<close> raises \<open>ValueError\<close>, \<^verbatim>\<open>RBSplineU\<close> returns a curve object holding two
  weight entries for three control points, and the mismatch shows only when the curve is
  evaluated, as an \<open>IndexError\<close> of \<^verbatim>\<open>weighting\<close>.
\<close>

theorem RBSplineU_init_accepts_count_mismatch:
  "RBSpline_init [(0, 0, 0), (1, 0, 0), (2, 0, 0)] [1] 3 = Inl ValueError \<and>
   RBSplineU_init [(0, 0, 0), (1, 0, 0), (2, 0, 0)] [1] 3 =
     Inr \<lparr> cls = RBSplineU,
           control_points = [(0, 0, 0), (0, 0, 0), (1, 0, 0), (2, 0, 0)],
           cp_count = 3, order = 3, nplusc = 6,
           knots = [0, 0, 1, 2, 3, 4, 5],
           weights = [0, 1] \<rparr> \<and>
   basis \<lparr> cls = RBSplineU,
           control_points = [(0, 0, 0), (0, 0, 0), (1, 0, 0), (2, 0, 0)],
           cp_count = 3, order = 3, nplusc = 6,
           knots = [0, 0, 1, 2, 3, 4, 5],
           weights = [0, 1] \<rparr> 2 = Inl IndexError"
  by (simp add: eval_defs)

text \<open>\<^verbatim>\<open>BSpline.__init__\<close> accepts every order: it never compares it with the point count.\<close>

lemma BSpline_init_has_no_order_check:
  "\<exists>s. BSpline_init c cps k kn = Inr s \<and> cp_count s = length cps \<and> order s = k"
  by (simp add: BSpline_init_def)

text \<open>
  Claim C2: a curve with fewer control points than its order must be refused at
  construction time. The docstring of the module asks for \<open>2 \<le> k \<le> n + 1\<close> (``can be no
  more than n+1 (the number of control points)''), but \<^verbatim>\<open>BSpline.__init__\<close> has no such
  check. With one control point and order 4 it returns a curve object whose knots are
  all zero and whose \<^verbatim>\<open>max_t\<close> is 0; \<^verbatim>\<open>point(0)\<close> returns the control point, and the same
  input to \<^verbatim>\<open>DBSpline\<close> constructs as well and raises \<open>ZeroDivisionError\<close> only when the
  curve is evaluated.
\<close>

theorem BSpline_init_accepts_order_above_count:
  "BSpline_init BSpline [(1, 2, 3)] 4 None =
     Inr \<lparr> cls = BSpline, control_points = [(0, 0, 0), (1, 2, 3)],
           cp_count = 1, order = 4, nplusc = 5,
           knots = [0, 0, 0, 0, 0, 0], weights = [] \<rparr> \<and>
   max_t \<lparr> cls = BSpline, control_points = [(0, 0, 0), (1, 2, 3)],
           cp_count = 1, order = 4, nplusc = 5,
           knots = [0, 0, 0, 0, 0, 0], weights = [] \<rparr> = Inr 0 \<and>
   point \<lparr> cls = BSpline, control_points = [(0, 0, 0), (1, 2, 3)],
           cp_count = 1, order = 4, nplusc = 5,
           knots = [0, 0, 0, 0, 0, 0], weights = [] \<rparr> 0 = Inr (1, 2, 3) \<and>
   BSpline_init DBSpline [(1, 2, 3)] 4 None =
     Inr \<lparr> cls = DBSpline, control_points = [(0, 0, 0), (1, 2, 3)],
           cp_count = 1, order = 4, nplusc = 5,
           knots = [0, 0, 0, 0, 0, 0], weights = [] \<rparr> \<and>
   dpoint \<lparr> cls = DBSpline, control_points = [(0, 0, 0), (1, 2, 3)],
           cp_count = 1, order = 4, nplusc = 5,
           knots = [0, 0, 0, 0, 0, 0], weights = [] \<rparr> 0 = Inl ZeroDivisionError"
  by (simp add: eval_defs)

subsection \<open>The chord-length knot vector\<close>

lemma for_loop_fails_at:
  "(\<And>s x. x \<in> set xs \<Longrightarrow> \<exists>s'. body s x = Inr s') \<Longrightarrow> (\<And>s. body s y = Inl e)
     \<Longrightarrow> for_loop body s (xs @ y # ys) = Inl e"
proof (induction xs arbitrary: s)
  case Nil
  then show ?case by simp
next
  case (Cons x xs)
  from Cons.prems(1)[of x s] obtain s' where "body s x = Inr s'" by auto
  then show ?case using Cons by simp
qed

lemma for_loop_no_error:
  "(\<And>s x. x \<in> set xs \<Longrightarrow> body s x \<noteq> Inl e) \<Longrightarrow> for_loop body s xs \<noteq> Inl e"
proof (induction xs arbitrary: s)
  case Nil
  then show ?case by simp
next
  case (Cons x xs)
  show ?case
  proof (cases "body s x")
    case (Inl e')
    then show ?thesis using Cons.prems[of x s] by simp
  next
    case (Inr s')
    then show ?thesis using Cons by simp
  qed
qed

lemma length_knot_closed_spacing:
  "length (knot_closed_spacing distf cps) = length cps - 2"
  by (simp add: knot_closed_spacing_def Let_def)

lemma knot_closed_step_cases:
  assumes "real_of_int (n - int k + 2) \<noteq> 0"
  shows "knot_closed_step spacing maxc n k x i =
           (if length spacing \<le> i then Inl IndexError
            else if maxc = 0 then Inl ZeroDivisionError
            else Inr (x @ [(real i / real_of_int (n - int k + 2) * spacing ! i
                             + py_sum (take i spacing)) / maxc * real_of_int (n - int k + 2)]))"
  using assms by (simp add: knot_closed_step_def Let_def pydiv_def getitem_def)

text \<open>
  Claim C10, amended: for order 2 and a 1-based control-point array with at least two
  actual points, \<^verbatim>\<open>knot_closed\<close> always raises. It raises \<open>IndexError\<close> (the read of
  \<^verbatim>\<open>spacing[n-1]\<close>, or of \<^verbatim>\<open>spacing[1]\<close> when there are exactly two points) unless there are
  at least three points and the distances sum to zero (all points coincide): then the
  first iteration reads \<^verbatim>\<open>spacing[1]\<close> in range and raises \<open>ZeroDivisionError\<close> in
  \<^verbatim>\<open>numerator / maxc\<close>. For every order \<open>k \<ge> 3\<close> no read of \<^verbatim>\<open>spacing\<close> is out of range.
\<close>

theorem knot_closed_errors:
  "(3 \<le> length cps \<longrightarrow>
      knot_closed distf cps 2 =
        (if 4 \<le> length cps \<and> py_sum (knot_closed_spacing distf cps) = 0
         then Inl ZeroDivisionError else Inl IndexError)) \<and>
   (3 \<le> k \<longrightarrow> knot_closed distf cps k \<noteq> Inl IndexError)"
proof (intro conjI impI)
  assume len: "3 \<le> length cps"
  define n where "n = int (length cps) - 1"
  define spacing where "spacing = knot_closed_spacing distf cps"
  define maxc where "maxc = py_sum spacing"
  have ls: "length spacing = length cps - 2"
    by (simp add: spacing_def length_knot_closed_spacing)
  have nz: "real_of_int (n - int 2 + 2) \<noteq> 0" using len by (simp add: n_def)
  note step = knot_closed_step_cases[OF nz]
  have rng: "[1..<nat (n - int 2 + 2)] = [1..<length cps - 2] @ (length cps - 2) # []"
  proof -
    have "nat (n - int 2 + 2) = Suc (length cps - 2)" using len by (simp add: n_def)
    moreover have "1 \<le> length cps - 2" using len by simp
    ultimately show ?thesis by simp
  qed
  have loop: "for_loop (knot_closed_step spacing maxc n 2) (replicate (2 + 1) 0)
                [1..<nat (n - int 2 + 2)] =
              (if 4 \<le> length cps \<and> maxc = 0 then Inl ZeroDivisionError else Inl IndexError)"
  proof (cases "4 \<le> length cps \<and> maxc = 0")
    case True
    have nn: "nat (n - int 2 + 2) = length cps - 1" using len by (simp add: n_def)
    from True have "4 \<le> length cps" by simp
    then have "Suc 0 < length cps - 1" by arith
    then have "[1..<nat (n - int 2 + 2)] = [] @ 1 # [2..<nat (n - int 2 + 2)]"
      unfolding nn by (simp add: upt_conv_Cons numeral_2_eq_2)
    moreover have "\<not> length spacing \<le> 1" using \<open>4 \<le> length cps\<close> ls by arith
    then have "knot_closed_step spacing maxc n 2 s 1 = Inl ZeroDivisionError" for s
      using True by (simp add: step)
    ultimately show ?thesis using True
      by (simp only: for_loop_fails_at[of "[]"] if_True) simp
  next
    case False
    have ok: "\<exists>s'. knot_closed_step spacing maxc n 2 s x = Inr s'"
      if "x \<in> set [1..<length cps - 2]" for s x
    proof -
      from that have "2 \<le> length cps - 2" by auto
      then have "maxc \<noteq> 0" using False by auto
      then show ?thesis using that ls by (simp add: step)
    qed
    have bad: "knot_closed_step spacing maxc n 2 s (length cps - 2) = Inl IndexError" for s
      using ls by (simp add: step)
    have "for_loop (knot_closed_step spacing maxc n 2) (replicate (2 + 1) 0)
            ([1..<length cps - 2] @ (length cps - 2) # []) = Inl IndexError"
      by (rule for_loop_fails_at[where body = "knot_closed_step spacing maxc n 2"])
         (use ok bad in auto)
    then show ?thesis using False by (simp only: rng if_False)
  qed
  show "knot_closed distf cps 2 =
        (if 4 \<le> length cps \<and> py_sum (knot_closed_spacing distf cps) = 0
         then Inl ZeroDivisionError else Inl IndexError)"
    unfolding knot_closed_def Let_def
    using loop[unfolded n_def spacing_def maxc_def] by (simp split: if_splits)
next
  assume k: "3 \<le> k"
  define n where "n = int (length cps) - 1"
  define spacing where "spacing = knot_closed_spacing distf cps"
  define maxc where "maxc = py_sum spacing"
  have ls: "length spacing = length cps - 2"
    by (simp add: spacing_def length_knot_closed_spacing)
  have "knot_closed_step spacing maxc n k s i \<noteq> Inl IndexError"
    if "i \<in> set [1..<nat (n - int k + 2)]" for s i
  proof -
    from that have i: "1 \<le> i" "int i < n - int k + 2" by auto
    then have nz: "real_of_int (n - int k + 2) \<noteq> 0" by auto
    have "i < length spacing" using i k by (simp add: ls n_def)
    then show ?thesis by (simp add: knot_closed_step_cases[OF nz])
  qed
  then have "for_loop (knot_closed_step spacing maxc n k) (replicate (k + 1) 0)
               [1..<nat (n - int k + 2)] \<noteq> Inl IndexError"
    by (rule for_loop_no_error)
  then show "knot_closed distf cps k \<noteq> Inl IndexError"
    unfolding knot_closed_def Let_def n_def spacing_def maxc_def
    by (auto simp: rbind_def split: sum.splits)
qed


text \<open>The definitions that evaluate \<^verbatim>\<open>knot_closed\<close> at a concrete input.\<close>

lemmas knot_closed_eval =
  knot_closed_def knot_closed_spacing_def knot_closed_step_def py_sum_def pydiv_def getitem_def
  Let_def upt_rec

text \<open>
  Claim C10, as stated, fails: three coincident points (after the placeholder) and
  order 2 give \<open>ZeroDivisionError\<close>, not \<open>IndexError\<close>.
\<close>

theorem knot_closed_order_2_counterexample:
  "knot_closed distance [(0, 0, 0), (1, 1, 1), (1, 1, 1), (1, 1, 1)] 2 = Inl ZeroDivisionError"
  by (simp add: knot_closed_eval)

text \<open>The amended claim C10 at three points on a line, orders 2 and 3.\<close>

theorem knot_closed_errors_witness:
  "3 \<le> length [(0, 0, 0), (0, 0, 0), (1, 0, 0), (2, 0, 0) :: Vector] \<and>
   knot_closed distance [(0, 0, 0), (0, 0, 0), (1, 0, 0), (2, 0, 0)] 2 = Inl IndexError \<and>
   (3 :: nat) \<le> 3 \<and>
   knot_closed distance [(0, 0, 0), (0, 0, 0), (1, 0, 0), (2, 0, 0)] 3 \<noteq> Inl IndexError"
  using knot_closed_errors[of "[(0, 0, 0), (0, 0, 0), (1, 0, 0), (2, 0, 0)]" distance 3]
  by (simp add: knot_closed_spacing_def py_sum_def upt_rec)

subsection \<open>Zero-width knot spans\<close>

text \<open>
  The value form never divides by a zero-width span on a non-decreasing knot vector: a
  guarding value is a value of the recursion, and it is non-zero only inside its support
  (\<open>cox_de_boor_support\<close>), where the span is positive.
\<close>

lemma BSpline_basis_no_zero_division:
  assumes "sorted (tl (knots s))" "nplusc s < length (knots s)"
  shows "BSpline_basis s t \<noteq> Inl ZeroDivisionError"
  by (simp add: BSpline_basis_value[OF assms] Let_def setitem_def)

text \<open>
  Claim C6: on a non-decreasing knot vector neither \<^verbatim>\<open>basis\<close> nor \<^verbatim>\<open>dbasis\<close> may divide by a
  zero-width knot span. The derivative form does: \<^verbatim>\<open>DBSpline.create_nbasis2\<close> forces
  \<^verbatim>\<open>nbasis[n] = 1.0\<close> before the recursion, so the guard \<^verbatim>\<open>nbasis[i+1] != 0.0\<close> lets a
  quotient through whose span is empty. Three control points, order 2, the non-decreasing
  knots \<open>0, 0, 1, 1, 1\<close> (after the placeholder) and \<open>t = 1 = max_t\<close>: \<^verbatim>\<open>dbasis\<close> and the
  point evaluation raise \<open>ZeroDivisionError\<close>, where the value form, which applies the
  same fix-up after the recursion, returns a basis vector.
\<close>

theorem dbasis_zero_division_at_repeated_end_knot:
  "sorted (tl [0, 0, 0, 1, 1, 1 :: real]) \<and>
   BSpline_init DBSpline [(0, 0, 0), (1, 0, 0), (2, 0, 0)] 2 (Some [0, 0, 0, 1, 1, 1]) =
     Inr \<lparr> cls = DBSpline, control_points = [(0, 0, 0), (0, 0, 0), (1, 0, 0), (2, 0, 0)],
           cp_count = 3, order = 2, nplusc = 5,
           knots = [0, 0, 0, 1, 1, 1], weights = [] \<rparr> \<and>
   dbasis \<lparr> cls = DBSpline, control_points = [(0, 0, 0), (0, 0, 0), (1, 0, 0), (2, 0, 0)],
           cp_count = 3, order = 2, nplusc = 5,
           knots = [0, 0, 0, 1, 1, 1], weights = [] \<rparr> 1 = Inl ZeroDivisionError \<and>
   dpoint \<lparr> cls = DBSpline, control_points = [(0, 0, 0), (0, 0, 0), (1, 0, 0), (2, 0, 0)],
           cp_count = 3, order = 2, nplusc = 5,
           knots = [0, 0, 0, 1, 1, 1], weights = [] \<rparr> 1 = Inl ZeroDivisionError \<and>
   BSpline_basis \<lparr> cls = DBSpline, control_points = [(0, 0, 0), (0, 0, 0), (1, 0, 0), (2, 0, 0)],
           cp_count = 3, order = 2, nplusc = 5,
           knots = [0, 0, 0, 1, 1, 1], weights = [] \<rparr> 1 = Inr [0, 0, 0, 1, 0]"
  by (simp add: eval_defs)

subsection \<open>Sums over the control points, rational weighting\<close>

lemma sum_list_indicator:
  "1 \<le> a \<Longrightarrow> a \<le> n \<Longrightarrow>
     sum_list (map (\<lambda>i. (if i = a then 1 else 0) * f i) [1..<n + 1]) = (f a :: real)"
proof -
  assume a: "1 \<le> a" "a \<le> n"
  have "sum_list (map (\<lambda>i. (if i = a then 1 else 0) * f i) [1..<n + 1]) =
          (\<Sum>i = 1..<n + 1. (if i = a then 1 else 0) * f i)"
    by (simp add: interv_sum_list_conv_sum_set_nat)
  also have "\<dots> = (\<Sum>i = 1..<n + 1. if i = a then f i else 0)"
    by (intro sum.cong) auto
  also have "\<dots> = f a" using a by simp
  finally show ?thesis .
qed

lemma axis_value_sum:
  assumes "npts1 \<le> length nb" "npts1 \<le> length cps"
  shows "axis_value nb cps npts1 a = Inr (\<Sum>i\<leftarrow>[1..<npts1]. nb ! i * axis_of (cps ! i) a)"
proof -
  have "gen_list (\<lambda>i. rbind (getitem nb i) (\<lambda>b. rbind (getitem cps i) (\<lambda>p. Inr (b * axis_of p a))))
          [1..<npts1] = Inr (map (\<lambda>i. nb ! i * axis_of (cps ! i) a) [1..<npts1])"
  proof (rule gen_list_total)
    fix i assume "i \<in> set [1..<npts1]"
    with assms have "i < length nb" "i < length cps" by auto
    then show "rbind (getitem nb i) (\<lambda>b. rbind (getitem cps i) (\<lambda>p. Inr (b * axis_of p a))) =
                 Inr (nb ! i * axis_of (cps ! i) a)"
      by (simp add: getitem_in_range)
  qed
  then show ?thesis by (simp add: axis_value_def py_sum_sum_list)
qed

lemma weighting_value:
  assumes "npts < length nb" "npts < length ws"
  shows "weighting nb ws npts =
           Inr (if (\<Sum>i\<leftarrow>[1..<npts + 1]. nb ! i * ws ! i) = 0 then replicate (npts + 1) 0
                else 0 # map (\<lambda>i. nb ! i * ws ! i / (\<Sum>j\<leftarrow>[1..<npts + 1]. nb ! j * ws ! j))
                           [1..<npts + 1])"
proof -
  have wp: "weighted_product nb ws i = Inr (nb ! i * ws ! i)" if "i \<in> set [1..<npts + 1]" for i
  proof -
    from that assms have "i < length nb" "i < length ws" by auto
    then show ?thesis by (simp add: weighted_product_def getitem_in_range)
  qed
  have g1: "gen_list (weighted_product nb ws) [1..<npts + 1] =
              Inr (map (\<lambda>i. nb ! i * ws ! i) [1..<npts + 1])"
    using wp by (rule gen_list_total)
  have g2: "gen_list (\<lambda>i. rbind (weighted_product nb ws i) (\<lambda>p. pydiv p s)) [1..<npts + 1] =
              Inr (map (\<lambda>i. nb ! i * ws ! i / s) [1..<npts + 1])" if "s \<noteq> 0" for s
    using wp that by (intro gen_list_total) (simp add: pydiv_def)
  define S where "S = (\<Sum>i\<leftarrow>[1..<npts + 1]. nb ! i * ws ! i)"
  have w: "weighting nb ws npts =
             (if S = 0 then Inr (replicate (npts + 1) 0)
              else rbind (gen_list (\<lambda>i. rbind (weighted_product nb ws i) (\<lambda>p. pydiv p S))
                            [1..<npts + 1]) (\<lambda>rs. Inr (one_based_array 0 (\<lambda>r. r) rs)))"
    unfolding weighting_def g1 rbind_Inr Let_def py_sum_sum_list S_def ..
  show ?thesis
  proof (cases "S = 0")
    case True
    then show ?thesis unfolding w S_def[symmetric] by simp
  next
    case False
    have "weighting nb ws npts = Inr (0 # map (\<lambda>i. nb ! i * ws ! i / S) [1..<npts + 1])"
      unfolding w g2[OF False] rbind_Inr one_based_array_def using False by simp
    then show ?thesis unfolding S_def[symmetric] using False by simp
  qed
qed


text \<open>
  Both weights zero: every product is the float \<open>0.0\<close>, the sum is \<open>0.0\<close> in the code as in
  the model, and \<^verbatim>\<open>weighting\<close> returns the zero vector of \<open>n + 1\<close> entries.
\<close>

lemma rational_basis_zero_weights_example:
  "basis \<lparr> cls = RBSpline, control_points = [(0, 0, 0), (0, 0, 0), (2, 0, 0)],
            cp_count = 2, order = 2, nplusc = 4, knots = [0, 0, 0, 1, 1], weights = [0, 0, 0] \<rparr>
     (1 / 2) = Inr [0, 0, 0]"
  by (simp add: eval_defs numeral_3_eq_3)

subsection \<open>The fix-up of the last point\<close>

lemma create_nbasis2_open:
  assumes "\<not> is_uniform (cls s)" "nplusc s < length (knots s)" "cp_count s < max 1 (nplusc s)"
  shows "create_nbasis2 s (knots s ! nplusc s) =
           Inr ((basis_buffer (knots s) (knots s ! nplusc s) (nplusc s) 1)[cp_count s := 1])"
  using assms
  by (simp add: create_nbasis2_def create_nbasis_buffer getitem_in_range setitem_in_range)

lemma create_nbasis2_uniform:
  assumes "is_uniform (cls s)" "nplusc s < length (knots s)" "cp_count s + 1 < max 1 (nplusc s)"
  shows "create_nbasis2 s (knots s ! (cp_count s + 1)) =
           Inr ((basis_buffer (knots s) (knots s ! (cp_count s + 1)) (nplusc s) 1)
                  [cp_count s := 1, cp_count s + 1 := 0])"
proof -
  have "cp_count s + 1 < length (knots s)" using assms by simp
  then show ?thesis using assms
    by (simp add: create_nbasis2_def create_nbasis_buffer getitem_in_range setitem_in_range Let_def)
qed

text \<open>
  Claim C4, amended. Let a curve have \<open>n\<close> control points, order \<open>k \<ge> 1\<close> and a
  non-decreasing knot vector of at least \<open>n + k + 1\<close> entries.
  \<^item> When \<open>t\<close> equals the final knot \<^verbatim>\<open>knots[n+k]\<close>, \<^verbatim>\<open>BSpline.basis\<close> (inherited by every
    class) returns a vector with \<^verbatim>\<open>basis[n] = 1.0\<close>, so the vector is not all-zero.
  \<^item> In the open classes the final knot is \<^verbatim>\<open>max_t\<close>, and \<^verbatim>\<open>DBSpline.create_nbasis2\<close>
    sets \<^verbatim>\<open>nbasis[n] = 1.0\<close> there, in the first-order vector, before the recursion.
  \<^item> In the uniform classes \<^verbatim>\<open>max_t\<close> is \<open>n\<close>. For \<open>k \<ge> 2\<close>, \<^verbatim>\<open>DBSplineU.create_nbasis2\<close> sets
    \<^verbatim>\<open>nbasis[n] = 1.0\<close> and \<^verbatim>\<open>nbasis[n+1] = 0.0\<close> at \<open>t =\<close> \<^verbatim>\<open>knots[n+1]\<close>, in the first-order
    vector, before the recursion.
  \<^item> In the uniform classes with the default knots and \<open>k \<ge> 2\<close>, \<^verbatim>\<open>max_t\<close> \<open>= n\<close> is
    \<^verbatim>\<open>knots[n+1]\<close> and lies below the final knot, which is \<open>n + k - 1\<close>; there
    \<^verbatim>\<open>BSpline.basis\<close> returns the values of the recursion as they are, no entry forced.
\<close>

theorem end_point_fix_up:
  assumes init: "BSpline_init c cps k kn = Inr s" and k: "1 \<le> k"
    and srt: "sorted (tl (knots s))" and len: "length cps + k < length (knots s)"
  shows "(\<exists>nb. BSpline_basis s (knots s ! (length cps + k)) = Inr nb \<and> nb ! length cps = 1) \<and>
         (\<not> is_uniform c \<longrightarrow>
            max_t s = Inr (knots s ! (length cps + k)) \<and>
            (\<exists>nb. create_nbasis2 s (knots s ! (length cps + k)) = Inr nb \<and> nb ! length cps = 1)) \<and>
         (is_uniform c \<and> 2 \<le> k \<longrightarrow>
            max_t s = Inr (real (length cps)) \<and>
            (kn = None \<longrightarrow> knots s ! (length cps + 1) = real (length cps)) \<and>
            (\<exists>nb. create_nbasis2 s (knots s ! (length cps + 1)) = Inr nb \<and>
                  nb ! length cps = 1 \<and> nb ! (length cps + 1) = 0)) \<and>
         (is_uniform c \<and> 2 \<le> k \<and> kn = None \<longrightarrow>
            knots s ! (length cps + k) = real (length cps + k - 1) \<and>
            real (length cps) < knots s ! (length cps + k) \<and>
            BSpline_basis s (real (length cps)) =
              Inr (basis_buffer (knots s) (real (length cps)) (length cps + k) k))"
proof -
  note f = BSpline_init_fields[OF init]
  have len': "nplusc s < length (knots s)" using f len by simp
  have ix: "cp_count s < max 1 (nplusc s)" using f k by simp
  have a: "\<exists>nb. BSpline_basis s (knots s ! (length cps + k)) = Inr nb \<and> nb ! length cps = 1"
    using f ix by (simp add: BSpline_basis_value[OF srt len'] Let_def setitem_in_range)
  have b: "max_t s = Inr (knots s ! (length cps + k)) \<and>
            (\<exists>nb. create_nbasis2 s (knots s ! (length cps + k)) = Inr nb \<and> nb ! length cps = 1)"
    if "\<not> is_uniform c"
  proof -
    have u: "\<not> is_uniform (cls s)" using f that by simp
    show ?thesis
      using create_nbasis2_open[OF u len' ix] f u len' ix
      by (simp add: max_t_def getitem_in_range)
  qed
  have c: "max_t s = Inr (real (length cps)) \<and>
            (kn = None \<longrightarrow> knots s ! (length cps + 1) = real (length cps)) \<and>
            (\<exists>nb. create_nbasis2 s (knots s ! (length cps + 1)) = Inr nb \<and>
                  nb ! length cps = 1 \<and> nb ! (length cps + 1) = 0)"
    if "is_uniform c \<and> 2 \<le> k"
  proof -
    have u: "is_uniform (cls s)" using f that by simp
    have ix2: "cp_count s + 1 < max 1 (nplusc s)" using f that by simp
    have d: "knots s ! (length cps + 1) = real (length cps)" if "kn = None"
      using f that \<open>is_uniform c \<and> 2 \<le> k\<close>
      by (simp add: default_knots_def knot_uniform_nth)
    show ?thesis
      using create_nbasis2_uniform[OF u len' ix2] f u ix2 d
      by (simp add: max_t_def)
  qed
  have d: "knots s ! (length cps + k) = real (length cps + k - 1) \<and>
           real (length cps) < knots s ! (length cps + k) \<and>
           BSpline_basis s (real (length cps)) =
              Inr (basis_buffer (knots s) (real (length cps)) (length cps + k) k)"
    if "is_uniform c \<and> 2 \<le> k \<and> kn = None"
  proof -
    have kn: "knots s = knot_uniform (length cps) k" using f that by (simp add: default_knots_def)
    have last: "knots s ! (length cps + k) = real (length cps + k - 1)"
      unfolding kn by (rule knot_uniform_nth) simp
    have lt: "real (length cps) < knots s ! (length cps + k)"
      unfolding last using that by simp
    have ne: "real (length cps) \<noteq> knots s ! nplusc s" using lt f by simp
    have mx: "max 1 (order s) = k" using f k by simp
    have "BSpline_basis s (real (length cps)) =
            Inr (basis_buffer (knots s) (real (length cps)) (length cps + k) k)"
      using ne f mx by (simp add: BSpline_basis_value[OF srt len'] Let_def)
    then show ?thesis using last lt by simp
  qed
  show ?thesis using a b c d by blast
qed

text \<open>
  The amended claim C4 at a \<^verbatim>\<open>DBSplineU\<close> curve of three control points and order 3: the
  final knot is 5, \<^verbatim>\<open>max_t\<close> is 3.
\<close>

theorem end_point_fix_up_witness:
  "BSpline_init DBSplineU [(0, 0, 0), (1, 0, 0), (2, 0, 0)] 3 None =
     Inr \<lparr> cls = DBSplineU, control_points = [(0, 0, 0), (0, 0, 0), (1, 0, 0), (2, 0, 0)],
           cp_count = 3, order = 3, nplusc = 6, knots = [0, 0, 1, 2, 3, 4, 5], weights = [] \<rparr> \<and>
   (1 :: nat) \<le> 3 \<and> sorted (tl [0, 0, 1, 2, 3, 4, 5 :: real]) \<and>
   length [(0, 0, 0), (1, 0, 0), (2, 0, 0) :: Vector] + 3 < length [0, 0, 1, 2, 3, 4, 5 :: real] \<and>
   BSpline_basis \<lparr> cls = DBSplineU, control_points = [(0, 0, 0), (0, 0, 0), (1, 0, 0), (2, 0, 0)],
           cp_count = 3, order = 3, nplusc = 6, knots = [0, 0, 1, 2, 3, 4, 5], weights = [] \<rparr> 5
     = Inr [0, 0, 0, 1, 0, 0] \<and>
   max_t \<lparr> cls = DBSplineU, control_points = [(0, 0, 0), (0, 0, 0), (1, 0, 0), (2, 0, 0)],
           cp_count = 3, order = 3, nplusc = 6, knots = [0, 0, 1, 2, 3, 4, 5], weights = [] \<rparr>
     = Inr 3 \<and>
   create_nbasis2 \<lparr> cls = DBSplineU, control_points = [(0, 0, 0), (0, 0, 0), (1, 0, 0), (2, 0, 0)],
           cp_count = 3, order = 3, nplusc = 6, knots = [0, 0, 1, 2, 3, 4, 5], weights = [] \<rparr> 3
     = Inr [0, 0, 0, 1, 0, 0] \<and>
   BSpline_basis \<lparr> cls = DBSplineU, control_points = [(0, 0, 0), (0, 0, 0), (1, 0, 0), (2, 0, 0)],
           cp_count = 3, order = 3, nplusc = 6, knots = [0, 0, 1, 2, 3, 4, 5], weights = [] \<rparr> 3
     = Inr (basis_buffer [0, 0, 1, 2, 3, 4, 5] 3 6 3) \<and>
   basis_buffer [0, 0, 1, 2, 3, 4, 5] 3 6 3 = [0, 0, 1 / 2, 1 / 2, 0, 0]"
  using end_point_fix_up[of DBSplineU "[(0, 0, 0), (1, 0, 0), (2, 0, 0)]" 3 None
      "\<lparr> cls = DBSplineU, control_points = [(0, 0, 0), (0, 0, 0), (1, 0, 0), (2, 0, 0)],
           cp_count = 3, order = 3, nplusc = 6, knots = [0, 0, 1, 2, 3, 4, 5], weights = [] \<rparr>"]
  by (simp add: eval_defs basis_buffer_def)

text \<open>
  Claim C4, as stated, fails for the uniform variant: a \<^verbatim>\<open>BSplineU\<close> curve of three
  control points and order 3 has \<^verbatim>\<open>max_t = 3\<close>, and \<^verbatim>\<open>basis(3)\<close> has \<^verbatim>\<open>basis[3] = 0.5\<close>,
  not \<open>1.0\<close>: nothing is forced there.
\<close>

theorem uniform_basis_at_max_t_counterexample:
  "BSpline_init BSplineU [(0, 0, 0), (1, 0, 0), (2, 0, 0)] 3 None =
     Inr \<lparr> cls = BSplineU, control_points = [(0, 0, 0), (0, 0, 0), (1, 0, 0), (2, 0, 0)],
           cp_count = 3, order = 3, nplusc = 6, knots = [0, 0, 1, 2, 3, 4, 5], weights = [] \<rparr> \<and>
   max_t \<lparr> cls = BSplineU, control_points = [(0, 0, 0), (0, 0, 0), (1, 0, 0), (2, 0, 0)],
           cp_count = 3, order = 3, nplusc = 6, knots = [0, 0, 1, 2, 3, 4, 5], weights = [] \<rparr>
     = Inr 3 \<and>
   basis \<lparr> cls = BSplineU, control_points = [(0, 0, 0), (0, 0, 0), (1, 0, 0), (2, 0, 0)],
           cp_count = 3, order = 3, nplusc = 6, knots = [0, 0, 1, 2, 3, 4, 5], weights = [] \<rparr> 3
     = Inr [0, 0, 1 / 2, 1 / 2, 0, 0]"
  by (simp add: eval_defs)


subsection \<open>Length of the basis vector, points as weighted sums\<close>

lemma point_value:
  assumes "max_t s = Inr mt" "basis s (snap mt t) = Inr nb"
    and "cp_count s < length nb" "cp_count s < length (control_points s)"
  shows "point s t =
           Inr (\<Sum>i\<leftarrow>[1..<cp_count s + 1]. nb ! i * axis_of (control_points s ! i) 0,
                \<Sum>i\<leftarrow>[1..<cp_count s + 1]. nb ! i * axis_of (control_points s ! i) 1,
                \<Sum>i\<leftarrow>[1..<cp_count s + 1]. nb ! i * axis_of (control_points s ! i) 2)"
proof -
  have "cp_count s + 1 \<le> length nb" "cp_count s + 1 \<le> length (control_points s)"
    using assms by simp_all
  note av = axis_value_sum[OF this]
  show ?thesis
    unfolding point_def assms(1) rbind_Inr Let_def assms(2) av ..
qed

lemma weighted_triple_value:
  assumes "length cps + 1 \<le> length nb"
  shows "weighted_triple nb ((0, 0, 0) # cps) (length cps + 1) = Inr (weighted_sum nb cps)"
proof -
  have e: "(\<Sum>i\<leftarrow>[1..<length cps + 1]. nb ! i * axis_of (((0, 0, 0) # cps) ! i) a) =
           (\<Sum>i\<leftarrow>[1..<length cps + 1]. nb ! i * axis_of (cps ! (i - 1)) a)" for a
    by (intro arg_cong[of _ _ sum_list] map_cong refl) (auto simp: nth_Cons')
  have l: "length cps + 1 \<le> length ((0, 0, 0) # cps)" by simp
  show ?thesis
    unfolding weighted_triple_def axis_value_sum[OF assms l] rbind_Inr e weighted_sum_def ..
qed

lemma point_weighted_sum:
  assumes mt: "max_t s = Inr mt" and nb: "basis s (snap mt t) = Inr nb"
    and l: "length cps + 1 \<le> length nb"
    and cp: "control_points s = (0, 0, 0) # cps" "cp_count s = length cps"
  shows "point s t = Inr (weighted_sum nb cps)"
proof -
  have "point s t = weighted_triple nb ((0, 0, 0) # cps) (length cps + 1)"
    unfolding point_def mt rbind_Inr Let_def nb cp weighted_triple_def ..
  then show ?thesis using weighted_triple_value[OF l] by simp
qed

lemma dbasis_step_lengths:
  assumes "dstate_lengths npc st" "dbasis_step kn t k st i = Inr st'"
  shows "dstate_lengths npc st'"
  using assms
  by (cases st) (auto simp: dbasis_step_def rbind_eq_Inr setitem_eq_Inr dstate_lengths_def)

lemma dbasis_lengths:
  assumes db: "dbasis s t = Inr st" and len: "nplusc s < length (knots s)" and n: "1 \<le> nplusc s"
  shows "dstate_lengths (nplusc s) st"
proof -
  from db obtain nb0 where c2: "create_nbasis2 s t = Inr nb0"
    and lp: "for_loop (dbasis_level (knots s) t (nplusc s))
               (nb0, replicate (nplusc s + 1) 0, replicate (nplusc s + 1) 0) [2..<order s + 1] = Inr st"
    by (auto simp: dbasis_def rbind_eq_Inr Let_def)
  have "length nb0 = nplusc s"
    using c2 n
    by (auto simp: create_nbasis2_def create_nbasis_buffer[OF len] rbind_eq_Inr setitem_eq_Inr
                   Let_def split: if_splits)
  then have s0: "dstate_lengths (nplusc s) (nb0, replicate (nplusc s + 1) 0, replicate (nplusc s + 1) 0)"
    by (simp add: dstate_lengths_def)
  have lv: "dstate_lengths (nplusc s) st2"
    if "dstate_lengths (nplusc s) st1" "dbasis_level (knots s) t (nplusc s) st1 j = Inr st2"
    for st1 j st2
    using that(1) that(2)[unfolded dbasis_level_def]
    by (rule for_loop_preserves[where P = "dstate_lengths (nplusc s)", rotated])
       (rule dbasis_step_lengths)
  show ?thesis
    using s0 lp by (rule for_loop_preserves[where P = "dstate_lengths (nplusc s)", rotated]) (rule lv)
qed

lemma max_t_returns:
  assumes "nplusc s < length (knots s)"
  shows "\<exists>mt. max_t s = Inr mt"
  using assms by (cases "is_uniform (cls s)") (auto simp: max_t_def getitem_in_range)

lemma basis_length:
  assumes init: "new_curve c cps ws k kn = Inr s" and k: "1 \<le> k"
    and srt: "sorted (tl (knots s))" and len: "length cps + k < length (knots s)"
    and wts: "c = RBSplineU \<longrightarrow> length cps \<le> length ws"
  shows "\<exists>nb. basis s t = Inr nb \<and>
              length nb = (if is_rational c then length cps + 1 else length cps + k)"
proof -
  note f = new_curve_fields[OF init]
  let ?n = "length cps"
  have len': "nplusc s < length (knots s)" using f len by simp
  have ix: "cp_count s < max 1 (nplusc s)" using f k by simp
  have npc: "nplusc s = ?n + k" using f by simp
  from BSpline_basis_returns[OF srt len' ix, of t] obtain nb
    where nb: "BSpline_basis s t = Inr nb" "length nb = max 1 (nplusc s)" by blast
  show ?thesis
  proof (cases "is_rational c")
    case False
    then show ?thesis using nb f k by (simp add: basis_def)
  next
    case True
    have "length ws = ?n \<or> ?n \<le> length ws" using True f wts by (cases c) auto
    then have "?n < length nb" "?n < length (0 # ws)" using nb(2) npc k by auto
    from weighting_value[OF this] f True nb(1) show ?thesis
      by (auto simp: basis_def simp del: upt_Suc)
  qed
qed

lemma point_value_form:
  assumes init: "new_curve c cps ws k kn = Inr s" and k: "1 \<le> k"
    and srt: "sorted (tl (knots s))" and len: "length cps + k < length (knots s)"
    and wts: "c = RBSplineU \<longrightarrow> length cps \<le> length ws"
    and mt: "max_t s = Inr mt"
  shows "\<exists>nb. basis s (snap mt t) = Inr nb \<and> point s t = Inr (weighted_sum nb cps)"
proof -
  note f = new_curve_fields[OF init]
  from basis_length[OF init k srt len wts, of "snap mt t"] obtain nb
    where nb: "basis s (snap mt t) = Inr nb"
      "length nb = (if is_rational c then length cps + 1 else length cps + k)" by blast
  have l: "length cps + 1 \<le> length nb" using nb(2) k by (simp split: if_splits)
  have cp: "control_points s = (0, 0, 0) # cps" and cpc: "cp_count s = length cps"
    using f by simp_all
  from point_weighted_sum[OF mt nb(1) l cp cpc] nb(1) show ?thesis by blast
qed

lemma point_derivative_form:
  assumes init: "new_curve c cps ws k kn = Inr s" and k: "1 \<le> k"
    and len: "length cps + k < length (knots s)" and mt: "max_t s = Inr mt"
  shows "case dbasis s (snap mt t) of
           Inl e \<Rightarrow> dpoint s t = Inl e
         | Inr (nb, d1, d2) \<Rightarrow>
             length nb = length cps + k \<and> length d1 = length cps + k + 1 \<and>
             length d2 = length cps + k + 1 \<and>
             dpoint s t = Inr (weighted_sum nb cps, weighted_sum d1 cps, weighted_sum d2 cps)"
proof (cases "dbasis s (snap mt t)")
  case (Inl e)
  then show ?thesis by (simp add: dpoint_def mt)
next
  case (Inr st)
  note f = new_curve_fields[OF init]
  let ?n = "length cps"
  have len': "nplusc s < length (knots s)" using f len by simp
  have npc: "nplusc s = ?n + k" and cpc: "cp_count s = ?n"
    and cp: "control_points s = (0, 0, 0) # cps" using f by simp_all
  obtain nb d1 d2 where st: "st = (nb, d1, d2)" by (cases st) auto
  have "1 \<le> nplusc s" using npc k by simp
  from dbasis_lengths[OF Inr len' this]
  have l: "length nb = ?n + k" "length d1 = ?n + k + 1" "length d2 = ?n + k + 1"
    by (simp_all add: dstate_lengths_def st npc)
  have "?n + 1 \<le> length nb" "?n + 1 \<le> length d1" "?n + 1 \<le> length d2" using l k by simp_all
  note wt = this[THEN weighted_triple_value]
  have "dpoint s t = Inr (weighted_sum nb cps, weighted_sum d1 cps, weighted_sum d2 cps)"
    unfolding dpoint_def mt rbind_Inr Let_def Inr st prod.case cp cpc wt ..
  then show ?thesis using l by (simp add: Inr st)
qed

text \<open>
  Claim C3, amended. Let a curve of any of the six classes have \<open>n\<close> control points, order
  \<open>k \<ge> 1\<close> and a non-decreasing knot vector of at least \<open>n + k + 1\<close> entries (the default
  knots are such), and, in class \<^verbatim>\<open>RBSplineU\<close>, at least \<open>n\<close> weights.
  \<^item> At every \<open>t\<close>, \<^verbatim>\<open>basis(t)\<close> returns a vector whose index 0 is a placeholder: of \<open>n + k\<close>
    entries in the four non-rational classes, of \<open>n + 1\<close> entries in the two rational
    classes.
  \<^item> In the classes \<^verbatim>\<open>BSpline\<close>, \<^verbatim>\<open>BSplineU\<close>, \<^verbatim>\<open>RBSpline\<close> and \<^verbatim>\<open>RBSplineU\<close>, \<^verbatim>\<open>point(t)\<close> is
    the sum over \<open>i = 1..n\<close> of \<^verbatim>\<open>basis[i]\<close> times control point \<open>i\<close>, where \<^verbatim>\<open>basis\<close> is the
    vector at \<open>t\<close> after the snap to \<^verbatim>\<open>max_t\<close>.
  \<^item> In the classes \<^verbatim>\<open>DBSpline\<close> and \<^verbatim>\<open>DBSplineU\<close>, \<^verbatim>\<open>point(t)\<close> is computed from the three
    buffers of \<^verbatim>\<open>dbasis\<close> at the snapped \<open>t\<close>, of \<open>n + k\<close>, \<open>n + k + 1\<close> and \<open>n + k + 1\<close>
    entries: it is the triple of the three sums over \<open>i = 1..n\<close> of a buffer's entry \<open>i\<close>
    times control point \<open>i\<close>, and it raises what \<^verbatim>\<open>dbasis\<close> raises.
\<close>

theorem basis_vector_length_and_point:
  assumes init: "new_curve c cps ws k kn = Inr s" and k: "1 \<le> k"
    and srt: "sorted (tl (knots s))" and len: "length cps + k < length (knots s)"
    and wts: "c = RBSplineU \<longrightarrow> length cps \<le> length ws"
  shows "(\<forall>t. \<exists>nb. basis s t = Inr nb \<and>
                 length nb = (if is_rational c then length cps + 1 else length cps + k)) \<and>
         (\<exists>mt. max_t s = Inr mt \<and>
            (\<forall>t. if is_derivative c
                 then (case dbasis s (snap mt t) of
                         Inl e \<Rightarrow> dpoint s t = Inl e
                       | Inr (nb, d1, d2) \<Rightarrow>
                           length nb = length cps + k \<and> length d1 = length cps + k + 1 \<and>
                           length d2 = length cps + k + 1 \<and>
                           dpoint s t = Inr (weighted_sum nb cps, weighted_sum d1 cps,
                                             weighted_sum d2 cps))
                 else (\<exists>nb. basis s (snap mt t) = Inr nb \<and>
                            point s t = Inr (weighted_sum nb cps))))"
proof -
  have "nplusc s < length (knots s)" using new_curve_fields[OF init] len by simp
  from max_t_returns[OF this] obtain mt where mt: "max_t s = Inr mt" by blast
  show ?thesis
    using basis_length[OF init k srt len wts] mt point_value_form[OF init k srt len wts mt]
      point_derivative_form[OF init k len mt]
    by auto
qed

text \<open>
  Claim C3, as stated, fails: two control points and order 2 give a basis vector of
  four entries, not \<open>n + 1 = 3\<close>.
\<close>

theorem basis_vector_length_counterexample:
  "BSpline_init BSpline [(0, 0, 0), (2, 0, 0)] 2 None =
     Inr \<lparr> cls = BSpline, control_points = [(0, 0, 0), (0, 0, 0), (2, 0, 0)],
           cp_count = 2, order = 2, nplusc = 4, knots = [0, 0, 0, 1, 1], weights = [] \<rparr> \<and>
   basis \<lparr> cls = BSpline, control_points = [(0, 0, 0), (0, 0, 0), (2, 0, 0)],
           cp_count = 2, order = 2, nplusc = 4, knots = [0, 0, 0, 1, 1], weights = [] \<rparr> (1 / 2)
     = Inr [0, 1 / 2, 1 / 2, 0] \<and>
   length [0, 1 / 2, 1 / 2, 0 :: real] \<noteq> 2 + 1"
  by (simp add: eval_defs)

text \<open>
  The amended claim C3 at two control points and order 2: a \<^verbatim>\<open>BSpline\<close> at \<open>t = 1/2\<close>, an
  \<^verbatim>\<open>RBSplineU\<close> with three weights at \<open>t = 3/2\<close>, a \<^verbatim>\<open>DBSpline\<close> at \<open>t = 1/2\<close>.
\<close>

theorem basis_vector_length_and_point_witness:
  "new_curve BSpline [(0, 0, 0), (2, 0, 0)] [] 2 None =
     Inr \<lparr> cls = BSpline, control_points = [(0, 0, 0), (0, 0, 0), (2, 0, 0)],
           cp_count = 2, order = 2, nplusc = 4, knots = [0, 0, 0, 1, 1], weights = [] \<rparr> \<and>
   (1 :: nat) \<le> 2 \<and> sorted (tl [0, 0, 0, 1, 1 :: real]) \<and>
   length [(0, 0, 0), (2, 0, 0) :: Vector] + 2 < length [0, 0, 0, 1, 1 :: real] \<and>
   basis \<lparr> cls = BSpline, control_points = [(0, 0, 0), (0, 0, 0), (2, 0, 0)],
           cp_count = 2, order = 2, nplusc = 4, knots = [0, 0, 0, 1, 1], weights = [] \<rparr> (1 / 2)
     = Inr [0, 1 / 2, 1 / 2, 0] \<and>
   point \<lparr> cls = BSpline, control_points = [(0, 0, 0), (0, 0, 0), (2, 0, 0)],
           cp_count = 2, order = 2, nplusc = 4, knots = [0, 0, 0, 1, 1], weights = [] \<rparr> (1 / 2)
     = Inr (weighted_sum [0, 1 / 2, 1 / 2, 0] [(0, 0, 0), (2, 0, 0)]) \<and>
   weighted_sum [0, 1 / 2, 1 / 2, 0] [(0, 0, 0), (2, 0, 0)] = (1, 0, 0) \<and>
   new_curve RBSplineU [(0, 0, 0), (2, 0, 0)] [1, 3, 5] 2 None =
     Inr \<lparr> cls = RBSplineU, control_points = [(0, 0, 0), (0, 0, 0), (2, 0, 0)],
           cp_count = 2, order = 2, nplusc = 4, knots = [0, 0, 1, 2, 3], weights = [0, 1, 3, 5] \<rparr> \<and>
   sorted (tl [0, 0, 1, 2, 3 :: real]) \<and>
   length [(0, 0, 0), (2, 0, 0) :: Vector] \<le> length [1, 3, 5 :: real] \<and>
   basis \<lparr> cls = RBSplineU, control_points = [(0, 0, 0), (0, 0, 0), (2, 0, 0)],
           cp_count = 2, order = 2, nplusc = 4, knots = [0, 0, 1, 2, 3], weights = [0, 1, 3, 5] \<rparr>
       (3 / 2)
     = Inr [0, 1 / 4, 3 / 4] \<and>
   point \<lparr> cls = RBSplineU, control_points = [(0, 0, 0), (0, 0, 0), (2, 0, 0)],
           cp_count = 2, order = 2, nplusc = 4, knots = [0, 0, 1, 2, 3], weights = [0, 1, 3, 5] \<rparr>
       (3 / 2)
     = Inr (weighted_sum [0, 1 / 4, 3 / 4] [(0, 0, 0), (2, 0, 0)]) \<and>
   weighted_sum [0, 1 / 4, 3 / 4] [(0, 0, 0), (2, 0, 0)] = (3 / 2, 0, 0) \<and>
   new_curve DBSpline [(0, 0, 0), (2, 0, 0)] [] 2 None =
     Inr \<lparr> cls = DBSpline, control_points = [(0, 0, 0), (0, 0, 0), (2, 0, 0)],
           cp_count = 2, order = 2, nplusc = 4, knots = [0, 0, 0, 1, 1], weights = [] \<rparr> \<and>
   dbasis \<lparr> cls = DBSpline, control_points = [(0, 0, 0), (0, 0, 0), (2, 0, 0)],
           cp_count = 2, order = 2, nplusc = 4, knots = [0, 0, 0, 1, 1], weights = [] \<rparr> (1 / 2)
     = Inr ([0, 1 / 2, 1 / 2, 0], [0, - 1, 1, 0, 0], [0, 0, 0, 0, 0]) \<and>
   dpoint \<lparr> cls = DBSpline, control_points = [(0, 0, 0), (0, 0, 0), (2, 0, 0)],
           cp_count = 2, order = 2, nplusc = 4, knots = [0, 0, 0, 1, 1], weights = [] \<rparr> (1 / 2)
     = Inr (weighted_sum [0, 1 / 2, 1 / 2, 0] [(0, 0, 0), (2, 0, 0)],
            weighted_sum [0, - 1, 1, 0, 0] [(0, 0, 0), (2, 0, 0)],
            weighted_sum [0, 0, 0, 0, 0] [(0, 0, 0), (2, 0, 0)]) \<and>
   weighted_sum [0, - 1, 1, 0, 0] [(0, 0, 0), (2, 0, 0)] = (2, 0, 0) \<and>
   weighted_sum [0, 0, 0, 0, 0] [(0, 0, 0), (2, 0, 0)] = (0, 0, 0)"
proof -
  let ?cps = "[(0, 0, 0), (2, 0, 0) :: Vector]"
  let ?s1 = "\<lparr> cls = BSpline, control_points = [(0, 0, 0), (0, 0, 0), (2, 0, 0)],
           cp_count = 2, order = 2, nplusc = 4, knots = [0, 0, 0, 1, 1], weights = [] \<rparr>"
  let ?s2 = "\<lparr> cls = RBSplineU, control_points = [(0, 0, 0), (0, 0, 0), (2, 0, 0)],
           cp_count = 2, order = 2, nplusc = 4, knots = [0, 0, 1, 2, 3], weights = [0, 1, 3, 5] \<rparr>"
  let ?s3 = "\<lparr> cls = DBSpline, control_points = [(0, 0, 0), (0, 0, 0), (2, 0, 0)],
           cp_count = 2, order = 2, nplusc = 4, knots = [0, 0, 0, 1, 1], weights = [] \<rparr>"
  have k: "(1 :: nat) \<le> 2" by simp
  have i1: "new_curve BSpline ?cps [] 2 None = Inr ?s1" by (simp add: new_curve_def eval_defs)
  have i2: "new_curve RBSplineU ?cps [1, 3, 5] 2 None = Inr ?s2"
    by (simp add: new_curve_def eval_defs)
  have i3: "new_curve DBSpline ?cps [] 2 None = Inr ?s3" by (simp add: new_curve_def eval_defs)
  have srt1: "sorted (tl [0, 0, 0, 1, 1 :: real])" by simp
  have srt2: "sorted (tl [0, 0, 1, 2, 3 :: real])" by simp
  have len1: "length ?cps + 2 < length [0, 0, 0, 1, 1 :: real]" by simp
  have w2: "length ?cps \<le> length [1, 3, 5 :: real]" by simp
  have m1: "max_t ?s1 = Inr 1" by (simp add: max_t_def getitem_def)
  have m2: "max_t ?s2 = Inr 2" by (simp add: max_t_def)
  have m3: "max_t ?s3 = Inr 1" by (simp add: max_t_def getitem_def)
  have sn1: "snap 1 (1 / 2) = 1 / 2" by (simp add: snap_def)
  have sn2: "snap 2 (3 / 2) = 3 / 2" by (simp add: snap_def)
  have b1: "basis ?s1 (1 / 2) = Inr [0, 1 / 2, 1 / 2, 0]" by (simp add: eval_defs)
  have b2: "basis ?s2 (3 / 2) = Inr [0, 1 / 4, 3 / 4]" by (simp add: eval_defs)
  have b3: "dbasis ?s3 (1 / 2) = Inr ([0, 1 / 2, 1 / 2, 0], [0, - 1, 1, 0, 0], [0, 0, 0, 0, 0])"
    by (simp add: eval_defs numeral_eq_Suc)
  have p1: "point ?s1 (1 / 2) = Inr (weighted_sum [0, 1 / 2, 1 / 2, 0] ?cps)"
  proof -
    from basis_vector_length_and_point[of BSpline ?cps "[]" 2 None ?s1] i1
    obtain mt where mt: "max_t ?s1 = Inr mt"
      and a: "\<And>t. \<exists>nb. basis ?s1 (snap mt t) = Inr nb \<and> point ?s1 t = Inr (weighted_sum nb ?cps)"
      by auto
    have "mt = 1" using mt m1 by simp
    with a[of "1 / 2"] sn1 b1 show ?thesis by simp
  qed
  have p2: "point ?s2 (3 / 2) = Inr (weighted_sum [0, 1 / 4, 3 / 4] ?cps)"
  proof -
    from basis_vector_length_and_point[of RBSplineU ?cps "[1, 3, 5]" 2 None ?s2] i2
    obtain mt where mt: "max_t ?s2 = Inr mt"
      and a: "\<And>t. \<exists>nb. basis ?s2 (snap mt t) = Inr nb \<and> point ?s2 t = Inr (weighted_sum nb ?cps)"
      by auto
    have "mt = 2" using mt m2 by simp
    with a[of "3 / 2"] sn2 b2 show ?thesis by simp
  qed
  have p3: "dpoint ?s3 (1 / 2) = Inr (weighted_sum [0, 1 / 2, 1 / 2, 0] ?cps,
              weighted_sum [0, - 1, 1, 0, 0] ?cps, weighted_sum [0, 0, 0, 0, 0] ?cps)"
  proof -
    from basis_vector_length_and_point[of DBSpline ?cps "[]" 2 None ?s3] i3
    obtain mt where mt: "max_t ?s3 = Inr mt"
      and a: "\<And>t. case dbasis ?s3 (snap mt t) of Inl e \<Rightarrow> dpoint ?s3 t = Inl e
                   | Inr (nb, d1, d2) \<Rightarrow>
                       length nb = length ?cps + 2 \<and> length d1 = length ?cps + 2 + 1 \<and>
                       length d2 = length ?cps + 2 + 1 \<and>
                       dpoint ?s3 t = Inr (weighted_sum nb ?cps, weighted_sum d1 ?cps,
                                           weighted_sum d2 ?cps)"
      by auto
    have "mt = 1" using mt m3 by simp
    with a[of "1 / 2"] sn1 b3 show ?thesis by simp
  qed
  have v1: "weighted_sum [0, 1 / 2, 1 / 2, 0] ?cps = (1, 0, 0)"
    by (simp add: weighted_sum_def upt_rec)
  have v2: "weighted_sum [0, 1 / 4, 3 / 4] ?cps = (3 / 2, 0, 0)"
    by (simp add: weighted_sum_def upt_rec)
  have v3: "weighted_sum [0, - 1, 1, 0, 0] ?cps = (2, 0, 0)"
    by (simp add: weighted_sum_def upt_rec)
  have v4: "weighted_sum [0, 0, 0, 0, 0] ?cps = (0, 0, 0)"
    by (simp add: weighted_sum_def upt_rec)
  show ?thesis by (intro conjI i1 k srt1 len1 b1 p1 v1 i2 srt2 w2 b2 p2 v2 i3 b3 p3 v3 v4)
qed

subsection \<open>Partition of unity\<close>

lemma first_order_sum:
  assumes srt: "sorted (tl kn)" and a: "1 \<le> a"
  shows "a \<le> b \<Longrightarrow> b + 1 < length kn \<Longrightarrow>
           (\<Sum>i = a..b. cox_de_boor kn t (Suc 0) i) =
             (if kn ! a \<le> t \<and> t < kn ! (b + 1) then 1 else 0)"
proof (induction b)
  case 0
  then show ?case using a by simp
next
  case (Suc b)
  show ?case
  proof (cases "a = Suc b")
    case True
    then show ?thesis by simp
  next
    case False
    then have ab: "a \<le> b" using Suc.prems by simp
    have m1: "kn ! a \<le> kn ! (b + 1)" using Suc.prems ab a by (intro knots_mono[OF srt]) auto
    have m2: "kn ! (b + 1) \<le> kn ! (Suc b + 1)" using Suc.prems a by (intro knots_mono[OF srt]) auto
    have "(\<Sum>i = a..Suc b. cox_de_boor kn t (Suc 0) i) =
            (\<Sum>i = a..b. cox_de_boor kn t (Suc 0) i) + cox_de_boor kn t (Suc 0) (Suc b)"
      using ab by simp
    also have "\<dots> = (if kn ! a \<le> t \<and> t < kn ! (b + 1) then 1 else 0) +
                      (if kn ! (b + 1) \<le> t \<and> t < kn ! (Suc b + 1) then 1 else 0)"
      using Suc.IH[OF ab] Suc.prems by simp
    also have "\<dots> = (if kn ! a \<le> t \<and> t < kn ! (Suc b + 1) then 1 else 0)"
      using m1 m2 by auto
    finally show ?thesis .
  qed
qed

text \<open>The two quotients that a value of order \<open>j + 1\<close> feeds into order \<open>j + 2\<close> add up to it.\<close>

lemma cox_de_boor_split:
  assumes srt: "sorted (tl kn)" and i: "1 \<le> i" and len: "i + Suc j < length kn"
  shows "(if cox_de_boor kn t (Suc j) i \<noteq> 0
          then (t - kn ! i) * cox_de_boor kn t (Suc j) i / (kn ! (i + Suc j) - kn ! i) else 0) +
         (if cox_de_boor kn t (Suc j) i \<noteq> 0
          then (kn ! (i + Suc j) - t) * cox_de_boor kn t (Suc j) i / (kn ! (i + Suc j) - kn ! i)
          else 0) = cox_de_boor kn t (Suc j) i"
proof (cases "cox_de_boor kn t (Suc j) i = 0")
  case True
  then show ?thesis by simp
next
  case False
  from cox_de_boor_support[OF srt i len False]
  have "kn ! (i + Suc j) - kn ! i \<noteq> 0" by simp
  then show ?thesis using False
    by (simp add: add_divide_distrib[symmetric] distrib_right[symmetric])
qed


lemma cox_de_boor_telescope:
  assumes srt: "sorted (tl kn)" and a: "1 \<le> a"
  shows "a \<le> b \<Longrightarrow> b + Suc (Suc j) < length kn \<Longrightarrow>
           (\<Sum>i = a..b. cox_de_boor kn t (Suc (Suc j)) i) =
             (if cox_de_boor kn t (Suc j) a \<noteq> 0
              then (t - kn ! a) * cox_de_boor kn t (Suc j) a / (kn ! (a + Suc j) - kn ! a) else 0) +
             (\<Sum>i = Suc a..b. cox_de_boor kn t (Suc j) i) +
             (if cox_de_boor kn t (Suc j) (b + 1) \<noteq> 0
              then (kn ! (b + Suc (Suc j)) - t) * cox_de_boor kn t (Suc j) (b + 1)
                     / (kn ! (b + Suc (Suc j)) - kn ! (b + 1)) else 0)"
proof (induction b)
  case 0
  then show ?case using a by simp
next
  case (Suc b)
  define D where "D i = (if cox_de_boor kn t (Suc j) i \<noteq> 0
              then (t - kn ! i) * cox_de_boor kn t (Suc j) i / (kn ! (i + Suc j) - kn ! i) else 0)" for i
  define E where "E i = (if cox_de_boor kn t (Suc j) (i + 1) \<noteq> 0
              then (kn ! (i + Suc (Suc j)) - t) * cox_de_boor kn t (Suc j) (i + 1)
                     / (kn ! (i + Suc (Suc j)) - kn ! (i + 1)) else 0)" for i
  have N: "cox_de_boor kn t (Suc (Suc j)) i = D i + E i" for i
    by (simp add: D_def E_def)
  show ?case unfolding D_def[symmetric] E_def[symmetric]
  proof (cases "a = Suc b")
    case True
    then show "(\<Sum>i = a..Suc b. cox_de_boor kn t (Suc (Suc j)) i) =
                 D a + (\<Sum>i = Suc a..Suc b. cox_de_boor kn t (Suc j) i) + E (Suc b)"
      by (simp add: N del: cox_de_boor.simps)
  next
    case False
    then have ab: "a \<le> b" using Suc.prems by simp
    have len: "b + Suc (Suc j) < length kn" using Suc.prems by simp
    have idx: "b + Suc (Suc j) = Suc b + Suc j" "b + 1 = Suc b" by simp_all
    have split: "D (Suc b) + E b = cox_de_boor kn t (Suc j) (Suc b)"
      unfolding D_def E_def idx
      by (rule cox_de_boor_split[OF srt]) (use Suc.prems in auto)
    have "(\<Sum>i = a..Suc b. cox_de_boor kn t (Suc (Suc j)) i) =
            (\<Sum>i = a..b. cox_de_boor kn t (Suc (Suc j)) i) + (D (Suc b) + E (Suc b))"
      using ab by (simp add: N del: cox_de_boor.simps)
    also have "\<dots> = D a + (\<Sum>i = Suc a..b. cox_de_boor kn t (Suc j) i) + E b
                       + (D (Suc b) + E (Suc b))"
      unfolding Suc.IH[OF ab len, unfolded D_def[symmetric] E_def[symmetric]] ..
    also have "\<dots> = D a + ((\<Sum>i = Suc a..b. cox_de_boor kn t (Suc j) i)
                               + cox_de_boor kn t (Suc j) (Suc b)) + E (Suc b)"
      unfolding split[symmetric] by (simp only: add.assoc add.left_commute add.commute)
    also have "\<dots> = D a + (\<Sum>i = Suc a..Suc b. cox_de_boor kn t (Suc j) i) + E (Suc b)"
      using ab by (simp del: cox_de_boor.simps)
    finally show "(\<Sum>i = a..Suc b. cox_de_boor kn t (Suc (Suc j)) i) =
                 D a + (\<Sum>i = Suc a..Suc b. cox_de_boor kn t (Suc j) i) + E (Suc b)" .
  qed
qed

lemma cox_de_boor_partition_of_unity:
  assumes srt: "sorted (tl kn)"
  shows "1 \<le> a \<Longrightarrow> a \<le> b \<Longrightarrow> b + Suc j < length kn \<Longrightarrow> kn ! (a + j) \<le> t
           \<Longrightarrow> t < kn ! (b + 1) \<Longrightarrow> (\<Sum>i = a..b. cox_de_boor kn t (Suc j) i) = 1"
proof (induction j arbitrary: a)
  case 0
  show ?case using first_order_sum[OF srt 0(1) 0(2), of t] 0 by simp
next
  case (Suc j)
  have ab: "Suc a \<le> b"
  proof (rule ccontr)
    assume "\<not> Suc a \<le> b"
    then have "a = b" using Suc.prems by simp
    then have "kn ! (b + 1) \<le> kn ! (a + Suc j)" using Suc.prems by (intro knots_mono[OF srt]) auto
    with Suc.prems show False by simp
  qed
  have za: "cox_de_boor kn t (Suc j) a = 0"
  proof (rule ccontr)
    assume nz: "cox_de_boor kn t (Suc j) a \<noteq> 0"
    have "a + Suc j < length kn" using ab Suc.prems by simp
    from cox_de_boor_support[OF srt Suc.prems(1) this nz] Suc.prems
    show False by simp
  qed
  have zb: "cox_de_boor kn t (Suc j) (b + 1) = 0"
  proof (rule ccontr)
    assume nz: "cox_de_boor kn t (Suc j) (b + 1) \<noteq> 0"
    have "1 \<le> b + 1" "b + 1 + Suc j < length kn" using Suc.prems by simp_all
    from cox_de_boor_support[OF srt this nz] Suc.prems
    show False by simp
  qed
  have "(\<Sum>i = a..b. cox_de_boor kn t (Suc (Suc j)) i) =
          (\<Sum>i = Suc a..b. cox_de_boor kn t (Suc j) i)"
  proof -
    have "a \<le> b" using ab by simp
    from cox_de_boor_telescope[OF srt Suc.prems(1) this Suc.prems(3), of t]
    show ?thesis unfolding za zb by simp
  qed
  also have "\<dots> = 1"
    using Suc.IH[of "Suc a"] Suc.prems ab by (simp del: cox_de_boor.simps)
  finally show ?case .
qed


text \<open>
  Claim C5, amended (the lower end of the interval is \<^verbatim>\<open>knot[k]\<close>, not \<^verbatim>\<open>knot[k-1]\<close>): for
  every non-rational curve with \<open>n\<close> control points, order \<open>k \<ge> 1\<close> and a non-decreasing knot
  vector of at least \<open>n + k + 1\<close> entries, and every parameter \<open>t\<close> in
  \<open>[knot[k], knot[n+1])\<close> (indices of the 1-based knot list), the basis vector returned by
  \<^verbatim>\<open>basis(t)\<close> sums to 1, over the entries \<open>1..n\<close> and over the whole vector. Arithmetic is
  exact in the model, so the sum is exactly 1.
\<close>

theorem basis_partition_of_unity:
  assumes init: "BSpline_init c cps k kn = Inr s" and nr: "\<not> is_rational c" and k: "1 \<le> k"
    and srt: "sorted (tl (knots s))" and len: "length cps + k < length (knots s)"
    and t: "knots s ! k \<le> t" "t < knots s ! (length cps + 1)"
  shows "\<exists>nb. basis s t = Inr nb \<and> (\<Sum>i = 1..length cps. nb ! i) = 1 \<and> sum_list nb = 1"
proof -
  note f = BSpline_init_fields[OF init]
  let ?n = "length cps"
  let ?kn = "knots s"
  let ?npc = "?n + k"
  define nb where "nb = basis_buffer ?kn t ?npc k"
  have n1: "1 \<le> ?n"
  proof (rule ccontr)
    assume "\<not> 1 \<le> ?n"
    then have "?kn ! (?n + 1) \<le> ?kn ! k" using k len by (intro knots_mono[OF srt]) auto
    with t show False by simp
  qed
  have "?kn ! (?n + 1) \<le> ?kn ! ?npc" using k len by (intro knots_mono[OF srt]) auto
  then have ne: "t \<noteq> ?kn ! ?npc" using t by simp
  have len': "nplusc s < length ?kn" using f len by simp
  have b: "basis s t = Inr nb"
    using f nr ne k by (simp add: basis_def BSpline_basis_value[OF srt len'] Let_def nb_def max_def)
  have lnb: "length nb = ?npc" using k by (simp add: nb_def max_def)
  have head: "nb ! 0 = 0" by (simp add: nb_def basis_buffer_def)
  have mid: "nb ! i = cox_de_boor ?kn t k i" if "i \<in> {1..?n}" for i
  proof -
    from that have "1 \<le> i" "i < ?npc" "min k (?npc - i) = k" using k by auto
    then show ?thesis by (simp add: nb_def nth_basis_buffer)
  qed
  have tail: "nb ! i = 0" if "i \<in> {?n + 1..<?npc}" for i
  proof (rule ccontr)
    assume nz: "nb ! i \<noteq> 0"
    from that have i: "1 \<le> i" "i < ?npc" "min k (?npc - i) = ?npc - i" by auto
    then have "cox_de_boor ?kn t (?npc - i) i \<noteq> 0"
      using nz by (simp add: nb_def nth_basis_buffer)
    moreover have "i + (?npc - i) < length ?kn" using i len by simp
    ultimately have "?kn ! i \<le> t" using cox_de_boor_support[OF srt i(1)] by blast
    moreover have "?kn ! (?n + 1) \<le> ?kn ! i" using that len by (intro knots_mono[OF srt]) auto
    ultimately show False using t by simp
  qed
  obtain j where j: "k = Suc j" using k by (cases k) auto
  have pu: "(\<Sum>i = 1..?n. nb ! i) = 1"
  proof -
    have "(\<Sum>i = 1..?n. nb ! i) = (\<Sum>i = 1..?n. cox_de_boor ?kn t (Suc j) i)"
      using mid by (intro sum.cong) (auto simp: j)
    also have "\<dots> = 1"
      using cox_de_boor_partition_of_unity[OF srt, of 1 ?n j t] n1 len t by (simp add: j)
    finally show ?thesis .
  qed
  have "sum_list nb = (\<Sum>i = 0..<?npc. nb ! i)"
    by (simp add: sum_list_sum_nth lnb)
  also have "\<dots> = (\<Sum>i = 0..<1. nb ! i) + (\<Sum>i = 1..<?n + 1. nb ! i)
                     + (\<Sum>i = ?n + 1..<?npc. nb ! i)"
  proof -
    have "(\<Sum>i = 0..<1. nb ! i) + (\<Sum>i = 1..<?n + 1. nb ! i) = (\<Sum>i = 0..<?n + 1. nb ! i)"
      by (rule sum.atLeastLessThan_concat) simp_all
    moreover have "(\<Sum>i = 0..<?n + 1. nb ! i) + (\<Sum>i = ?n + 1..<?npc. nb ! i) =
                   (\<Sum>i = 0..<?npc. nb ! i)"
      by (rule sum.atLeastLessThan_concat) (use k in simp_all)
    ultimately show ?thesis by (simp only:)
  qed
  also have "(\<Sum>i = 0..<1. nb ! i) = 0" using head by simp
  also have "(\<Sum>i = 1..<?n + 1. nb ! i) = (\<Sum>i = 1..?n. nb ! i)"
    by (intro sum.cong) auto
  also have "(\<Sum>i = ?n + 1..<?npc. nb ! i) = 0"
    using tail by (intro sum.neutral) blast
  finally have "sum_list nb = 1" using pu by simp
  with b pu show ?thesis by blast
qed

text \<open>
  Claim C5, as stated, fails: on the uniform knots of three control points and order 2,
  \<open>t = 1/2\<close> lies in \<open>[knot[k-1], knot[n+1]) = [0, 3)\<close> and the basis vector sums to \<open>1/2\<close>.
\<close>

theorem basis_partition_of_unity_counterexample:
  "BSpline_init BSplineU [(0, 0, 0), (1, 0, 0), (2, 0, 0)] 2 None =
     Inr \<lparr> cls = BSplineU, control_points = [(0, 0, 0), (0, 0, 0), (1, 0, 0), (2, 0, 0)],
           cp_count = 3, order = 2, nplusc = 5, knots = [0, 0, 1, 2, 3, 4], weights = [] \<rparr> \<and>
   sorted (tl [0, 0, 1, 2, 3, 4 :: real]) \<and>
   [0, 0, 1, 2, 3, 4 :: real] ! (2 - 1) \<le> 1 / 2 \<and> 1 / 2 < [0, 0, 1, 2, 3, 4 :: real] ! (3 + 1) \<and>
   basis \<lparr> cls = BSplineU, control_points = [(0, 0, 0), (0, 0, 0), (1, 0, 0), (2, 0, 0)],
           cp_count = 3, order = 2, nplusc = 5, knots = [0, 0, 1, 2, 3, 4], weights = [] \<rparr>
     (1 / 2) = Inr [0, 1 / 2, 0, 0, 0] \<and>
   sum_list [0, 1 / 2, 0, 0, 0 :: real] = 1 / 2"
  by (simp add: eval_defs)

text \<open>The amended claim C5 on the same curve at \<open>t = 3/2\<close>, inside \<open>[knot[2], knot[4]) = [1, 3)\<close>.\<close>

theorem basis_partition_of_unity_witness:
  "BSpline_init BSplineU [(0, 0, 0), (1, 0, 0), (2, 0, 0)] 2 None =
     Inr \<lparr> cls = BSplineU, control_points = [(0, 0, 0), (0, 0, 0), (1, 0, 0), (2, 0, 0)],
           cp_count = 3, order = 2, nplusc = 5, knots = [0, 0, 1, 2, 3, 4], weights = [] \<rparr> \<and>
   \<not> is_rational BSplineU \<and> (1 :: nat) \<le> 2 \<and>
   sorted (tl [0, 0, 1, 2, 3, 4 :: real]) \<and>
   length [(0, 0, 0), (1, 0, 0), (2, 0, 0) :: Vector] + 2 < length [0, 0, 1, 2, 3, 4 :: real] \<and>
   [0, 0, 1, 2, 3, 4 :: real] ! 2 \<le> 3 / 2 \<and> 3 / 2 < [0, 0, 1, 2, 3, 4 :: real] ! (3 + 1) \<and>
   basis \<lparr> cls = BSplineU, control_points = [(0, 0, 0), (0, 0, 0), (1, 0, 0), (2, 0, 0)],
           cp_count = 3, order = 2, nplusc = 5, knots = [0, 0, 1, 2, 3, 4], weights = [] \<rparr>
     (3 / 2) = Inr [0, 1 / 2, 1 / 2, 0, 0] \<and>
   sum_list [0, 1 / 2, 1 / 2, 0, 0 :: real] = 1"
  using basis_partition_of_unity[of BSplineU "[(0, 0, 0), (1, 0, 0), (2, 0, 0)]" 2 None
      "\<lparr> cls = BSplineU, control_points = [(0, 0, 0), (0, 0, 0), (1, 0, 0), (2, 0, 0)],
           cp_count = 3, order = 2, nplusc = 5, knots = [0, 0, 1, 2, 3, 4], weights = [] \<rparr>"
      "3 / 2"]
  by (simp add: eval_defs)

subsection \<open>Endpoint interpolation\<close>

lemma open_uniform_knot:
  "1 \<le> k \<Longrightarrow> i \<le> n + k \<Longrightarrow> knot_open_uniform n k ! i = real (min i (n + 1) - k)"
  by (simp add: knot_open_uniform_nth max_def)

lemma cox_de_boor_open_uniform_at_0:
  assumes nk: "k \<le> n"
  shows "1 \<le> i \<Longrightarrow> Suc j \<le> k \<Longrightarrow> i + Suc j \<le> n + k \<Longrightarrow>
           cox_de_boor (knot_open_uniform n k) 0 (Suc j) i = (if i + j = k then 1 else 0)"
proof (induction j arbitrary: i)
  case 0
  then show ?case using nk by (auto simp: open_uniform_knot)
next
  case (Suc j)
  let ?kn = "knot_open_uniform n k"
  have a: "cox_de_boor ?kn 0 (Suc j) i = (if i + j = k then 1 else 0)"
    using Suc.IH[of i] Suc.prems by simp
  have b: "cox_de_boor ?kn 0 (Suc j) (i + 1) = (if i + 1 + j = k then 1 else 0)"
    using Suc.IH[of "i + 1"] Suc.prems by simp
  have d: "?kn ! i = 0" if "i + j = k"
    using that Suc.prems nk by (simp add: open_uniform_knot)
  have e: "?kn ! (i + Suc (Suc j)) = 1 \<and> ?kn ! (i + 1) = 0" if "i + 1 + j = k"
  proof -
    have "i + Suc (Suc j) = k + 1" using that by simp
    then have "?kn ! (i + Suc (Suc j)) = real (min (k + 1) (n + 1) - k)"
      using Suc.prems nk by (simp add: open_uniform_knot)
    moreover have "?kn ! (i + 1) = real (min (i + 1) (n + 1) - k)"
      using Suc.prems nk by (intro open_uniform_knot) auto
    ultimately show ?thesis using that nk by (simp add: min_def)
  qed
  show ?case
    unfolding cox_de_boor.simps a b using d e by auto
qed

lemma cox_de_boor_zero_at_last_knot:
  assumes "sorted (tl kn)" "1 \<le> i" "i + j \<le> npc" "npc < length kn"
  shows "cox_de_boor kn (kn ! npc) j i = 0"
proof (rule ccontr)
  assume "cox_de_boor kn (kn ! npc) j i \<noteq> 0"
  then have "kn ! npc < kn ! (i + j)"
    using cox_de_boor_support[OF assms(1,2), of j "kn ! npc"] assms by simp
  moreover have "kn ! (i + j) \<le> kn ! npc" using assms by (intro knots_mono) auto
  ultimately show False by simp
qed

lemma vector_axes: "(axis_of p 0, axis_of p 1, axis_of p 2) = p"
  by (cases p) auto


lemma point_of_indicator_basis:
  assumes mt: "max_t s = Inr mt" and b: "basis s (snap mt t) = Inr nb"
    and ln: "cp_count s < length nb" and lc: "length (control_points s) = cp_count s + 1"
    and a: "1 \<le> a" "a \<le> cp_count s"
    and ind: "\<And>i. 1 \<le> i \<Longrightarrow> i \<le> cp_count s \<Longrightarrow> nb ! i = (if i = a then 1 else 0)"
  shows "point s t = Inr (control_points s ! a)"
proof -
  have "cp_count s < length (control_points s)" using lc by simp
  note pv = point_value[OF mt b ln this]
  have "(\<Sum>i\<leftarrow>[1..<cp_count s + 1]. nb ! i * axis_of (control_points s ! i) x) =
          axis_of (control_points s ! a) x" for x
  proof -
    have "map (\<lambda>i. nb ! i * axis_of (control_points s ! i) x) [1..<cp_count s + 1] =
          map (\<lambda>i. (if i = a then 1 else 0) * axis_of (control_points s ! i) x)
            [1..<cp_count s + 1]"
    proof (rule map_cong[OF refl])
      fix i assume "i \<in> set [1..<cp_count s + 1]"
      then have "1 \<le> i" "i \<le> cp_count s" by auto
      then show "nb ! i * axis_of (control_points s ! i) x =
                 (if i = a then 1 else 0) * axis_of (control_points s ! i) x"
        by (simp only: ind)
    qed
    then show ?thesis using sum_list_indicator[OF a] by (simp only:)
  qed
  then show ?thesis unfolding pv by (simp only: vector_axes)
qed

text \<open>
  Claim C7: for every open-uniform curve (a \<^verbatim>\<open>BSpline\<close> constructed with the default knots)
  with \<open>n\<close> control points and order \<open>k\<close>, \<open>n \<ge> k \<ge> 2\<close>, \<^verbatim>\<open>point(0)\<close> is the first control
  point and \<^verbatim>\<open>point(max_t)\<close> is the last control point. Arithmetic is exact in the model,
  and so are the two equalities.
\<close>

theorem open_uniform_endpoint_interpolation:
  assumes init: "BSpline_init BSpline cps k None = Inr s" and k: "2 \<le> k" and nk: "k \<le> length cps"
  shows "point s 0 = Inr (cps ! 0) \<and>
         (\<exists>mt. max_t s = Inr mt \<and> point s mt = Inr (last cps))"
proof -
  note f = BSpline_init_fields[OF init]
  let ?n = "length cps"
  let ?kn = "knot_open_uniform ?n k"
  have kn: "knots s = ?kn" using f by (simp add: default_knots_def)
  have srt: "sorted (tl (knots s))" using f default_knots_sorted[of BSpline ?n k] by simp
  have len: "nplusc s < length (knots s)" using f by simp
  define mt where "mt = ?kn ! (?n + k)"
  have mtv: "mt = real (?n + 1 - k)" using k by (simp add: mt_def open_uniform_knot)
  have mt1: "1 \<le> mt" using nk by (simp add: mtv)
  have mt: "max_t s = Inr mt"
    using f len by (simp add: max_t_def getitem_in_range mt_def default_knots_def)
  have n1: "1 \<le> ?n" using k nk by simp
  have cp: "cp_count s = ?n" "length (control_points s) = cp_count s + 1" using f by simp_all
  have nr: "\<not> is_rational (cls s)" using f by simp
  \<comment> \<open>the first point\<close>
  have s0: "snap mt 0 = 0" using mt1 by (simp add: snap_def)
  define nb0 where "nb0 = basis_buffer ?kn 0 (?n + k) k"
  have ord: "order s = k" "nplusc s = ?n + k" using f by simp_all
  have mx: "max 1 k = k" using k by simp
  have bv: "BSpline_basis s t =
              (let nb = basis_buffer ?kn t (?n + k) k
               in if t = mt then setitem nb (cp_count s) 1 else Inr nb)" for t
    using BSpline_basis_value[OF srt len, of t] unfolding kn ord mx mt_def .
  have b0: "basis s (snap mt 0) = Inr nb0"
    using nr mt1 by (simp add: s0 basis_def bv Let_def nb0_def)
  have l0: "cp_count s < length nb0" using k cp by (simp add: nb0_def max_def)
  have i0: "nb0 ! i = (if i = 1 then 1 else 0)" if "1 \<le> i" "i \<le> cp_count s" for i
  proof -
    obtain j where j: "k = Suc j" using k by (cases k) auto
    have "min k (?n + k - i) = k" using that cp by simp
    then have "nb0 ! i = cox_de_boor ?kn 0 (Suc j) i"
      using that cp k by (simp add: nb0_def nth_basis_buffer j)
    also have "\<dots> = (if i + j = k then 1 else 0)"
      using that cp j by (intro cox_de_boor_open_uniform_at_0[OF nk]) auto
    finally show ?thesis using j by auto
  qed
  have p0: "point s 0 = Inr (control_points s ! 1)"
    using n1 cp by (intro point_of_indicator_basis[OF mt b0 l0 cp(2) _ _ i0]) auto
  \<comment> \<open>the last point\<close>
  have sm: "snap mt mt = mt" by (simp add: snap_def)
  define nbm where "nbm = (basis_buffer ?kn mt (?n + k) k)[?n := 1]"
  have bm: "basis s (snap mt mt) = Inr nbm"
    using nr k cp by (simp add: sm basis_def bv Let_def nbm_def setitem_in_range max_def)
  have lm: "cp_count s < length nbm" using k cp by (simp add: nbm_def max_def)
  have im: "nbm ! i = (if i = ?n then 1 else 0)" if "1 \<le> i" "i \<le> cp_count s" for i
  proof (cases "i = ?n")
    case True
    then show ?thesis using k by (simp add: nbm_def max_def)
  next
    case False
    have "cox_de_boor ?kn (?kn ! (?n + k)) (min k (?n + k - i)) i = 0"
      using that cp srt len f
      by (intro cox_de_boor_zero_at_last_knot) (auto simp: kn)
    then show ?thesis using False that cp k
      by (simp add: nbm_def nth_basis_buffer mt_def)
  qed
  have pm: "point s mt = Inr (control_points s ! ?n)"
    using n1 cp by (intro point_of_indicator_basis[OF mt bm lm cp(2) _ _ im]) auto
  have "control_points s ! 1 = cps ! 0" using f by simp
  moreover have "control_points s ! ?n = last cps"
    using f n1 by (cases cps rule: rev_cases) (auto simp: nth_append)
  ultimately show ?thesis using p0 pm mt by auto
qed

text \<open>Claim C7 at three control points and order 3.\<close>

theorem open_uniform_endpoint_interpolation_witness:
  "BSpline_init BSpline [(5, 0, 0), (1, 0, 0), (2, 7, 0)] 3 None =
     Inr \<lparr> cls = BSpline, control_points = [(0, 0, 0), (5, 0, 0), (1, 0, 0), (2, 7, 0)],
           cp_count = 3, order = 3, nplusc = 6, knots = [0, 0, 0, 0, 1, 1, 1], weights = [] \<rparr> \<and>
   (2 :: nat) \<le> 3 \<and> 3 \<le> length [(5, 0, 0), (1, 0, 0), (2, 7, 0) :: Vector] \<and>
   point \<lparr> cls = BSpline, control_points = [(0, 0, 0), (5, 0, 0), (1, 0, 0), (2, 7, 0)],
           cp_count = 3, order = 3, nplusc = 6, knots = [0, 0, 0, 0, 1, 1, 1], weights = [] \<rparr> 0
     = Inr (5, 0, 0) \<and>
   max_t \<lparr> cls = BSpline, control_points = [(0, 0, 0), (5, 0, 0), (1, 0, 0), (2, 7, 0)],
           cp_count = 3, order = 3, nplusc = 6, knots = [0, 0, 0, 0, 1, 1, 1], weights = [] \<rparr>
     = Inr 1 \<and>
   point \<lparr> cls = BSpline, control_points = [(0, 0, 0), (5, 0, 0), (1, 0, 0), (2, 7, 0)],
           cp_count = 3, order = 3, nplusc = 6, knots = [0, 0, 0, 0, 1, 1, 1], weights = [] \<rparr> 1
     = Inr (2, 7, 0)"
  using open_uniform_endpoint_interpolation[of "[(5, 0, 0), (1, 0, 0), (2, 7, 0)]" 3
      "\<lparr> cls = BSpline, control_points = [(0, 0, 0), (5, 0, 0), (1, 0, 0), (2, 7, 0)],
           cp_count = 3, order = 3, nplusc = 6, knots = [0, 0, 0, 0, 1, 1, 1], weights = [] \<rparr>"]
  by (simp add: eval_defs)

subsection \<open>Parameters at and above the end of the domain\<close>

lemma for_loop_upt_invariant:
  "(\<And>i s. a \<le> i \<Longrightarrow> i < b \<Longrightarrow> P i s \<Longrightarrow> \<exists>s'. body s i = Inr s' \<and> P (Suc i) s')
     \<Longrightarrow> a \<le> b \<Longrightarrow> P a s \<Longrightarrow> \<exists>s'. for_loop body s [a..<b] = Inr s' \<and> P b s'"
proof (induction b)
  case 0
  then show ?case by simp
next
  case (Suc b)
  show ?case
  proof (cases "a = Suc b")
    case True
    then show ?thesis using Suc.prems by simp
  next
    case False
    then have ab: "a \<le> b" using Suc.prems by simp
    have "\<exists>s'. for_loop body s [a..<b] = Inr s' \<and> P b s'"
      using Suc.prems(1,3) ab by (intro Suc.IH) auto
    then obtain s1 where s1: "for_loop body s [a..<b] = Inr s1" "P b s1" by blast
    from Suc.prems(1)[OF ab _ s1(2)] obtain s2 where "body s1 b = Inr s2" "P (Suc b) s2"
      by auto
    then show ?thesis using ab s1 by (simp add: for_loop_append)
  qed
qed

text \<open>One pass of the body of \<^verbatim>\<open>dbasis\<close> when no guarded span is empty.\<close>

lemma dbasis_step_value:
  assumes i: "1 \<le> i" "i + k < length kn" "2 \<le> k"
    and ln: "i + 1 < length nb" "i + 1 < length d1" "i + 1 < length d2"
    and sp0: "nb ! i \<noteq> 0 \<or> d1 ! i \<noteq> 0 \<or> d2 ! i \<noteq> 0 \<Longrightarrow> kn ! (i + k - 1) \<noteq> kn ! i"
    and sp1: "nb ! (i + 1) \<noteq> 0 \<or> d1 ! (i + 1) \<noteq> 0 \<or> d2 ! (i + 1) \<noteq> 0
                \<Longrightarrow> kn ! (i + k) \<noteq> kn ! (i + 1)"
  shows "\<exists>b f g. dbasis_step kn t k (nb, d1, d2) i = Inr (nb[i := b], d1[i := f], d2[i := g]) \<and>
           (nb ! i = 0 \<and> d1 ! i = 0 \<and> d2 ! i = 0 \<and>
            nb ! (i + 1) = 0 \<and> d1 ! (i + 1) = 0 \<and> d2 ! (i + 1) = 0 \<longrightarrow> b = 0 \<and> f = 0 \<and> g = 0)"
proof -
  have r: "i < length kn" "i + k - 1 < length kn" "i + k < length kn" "i + 1 < length kn"
    using i by simp_all
  have l: "i < length nb" "i < length d1" "i < length d2" using ln by simp_all
  have nb0: "guarded kn nb i num i (i + k - 1) i =
               Inr (if nb ! i \<noteq> 0 then num (kn ! i) (nb ! i) / (kn ! (i + k - 1) - kn ! i) else 0)"
    for num using sp0 by (intro guarded_value l r) simp
  have d10: "guarded kn d1 i num i (i + k - 1) i =
               Inr (if d1 ! i \<noteq> 0 then num (kn ! i) (d1 ! i) / (kn ! (i + k - 1) - kn ! i) else 0)"
    for num using sp0 by (intro guarded_value l r) simp
  have d20: "guarded kn d2 i num i (i + k - 1) i =
               Inr (if d2 ! i \<noteq> 0 then num (kn ! i) (d2 ! i) / (kn ! (i + k - 1) - kn ! i) else 0)"
    for num using sp0 by (intro guarded_value l r) simp
  have nb1: "guarded kn nb (i + 1) num (i + k) (i + k) (i + 1) =
               Inr (if nb ! (i + 1) \<noteq> 0
                    then num (kn ! (i + k)) (nb ! (i + 1)) / (kn ! (i + k) - kn ! (i + 1)) else 0)"
    for num using sp1 by (intro guarded_value ln r) simp
  have d11: "guarded kn d1 (i + 1) num (i + k) (i + k) (i + 1) =
               Inr (if d1 ! (i + 1) \<noteq> 0
                    then num (kn ! (i + k)) (d1 ! (i + 1)) / (kn ! (i + k) - kn ! (i + 1)) else 0)"
    for num using sp1 by (intro guarded_value ln r) simp
  have d21: "guarded kn d2 (i + 1) num (i + k) (i + k) (i + 1) =
               Inr (if d2 ! (i + 1) \<noteq> 0
                    then num (kn ! (i + k)) (d2 ! (i + 1)) / (kn ! (i + k) - kn ! (i + 1)) else 0)"
    for num using sp1 by (intro guarded_value ln r) simp
  show ?thesis
    unfolding dbasis_step_def prod.case nb0 nb1 d10 d11 d20 d21 rbind_Inr
      setitem_in_range[OF l(1)] setitem_in_range[OF l(2)] setitem_in_range[OF l(3)]
    by (intro exI conjI) (rule refl, simp)
qed


lemma open_uniform_span:
  assumes "1 \<le> k" "k \<le> n" "g \<le> n" "n + 2 \<le> g + j" "g + j \<le> n + k + 1"
  shows "knot_open_uniform n k ! (g + j - 1) \<noteq> knot_open_uniform n k ! g"
proof -
  have "min (g + j - 1) (n + 1) = n + 1" "g + j - 1 \<le> n + k" "min g (n + 1) = g" "g \<le> n + k"
    using assms by simp_all
  then have "knot_open_uniform n k ! (g + j - 1) = real (n + 1 - k)"
    "knot_open_uniform n k ! g = real (g - k)"
    using assms(1) by (simp_all only: open_uniform_knot)
  moreover have "g - k < n + 1 - k" using assms by arith
  ultimately show ?thesis by simp
qed

lemma dbasis_step_open_uniform:
  assumes k: "1 \<le> k" "k \<le> n" and j: "2 \<le> j" "j \<le> k" and i: "1 \<le> i" "i + j \<le> n + k"
    and ok: "dstate_ok (n + k) n j i st"
  shows "\<exists>st'. dbasis_step (knot_open_uniform n k) t j st i = Inr st' \<and>
               dstate_ok (n + k) n j (Suc i) st'"
proof -
  let ?kn = "knot_open_uniform n k"
  obtain nb d1 d2 where st: "st = (nb, d1, d2)" by (cases st) auto
  from ok have ln: "length nb = n + k" "length d1 = n + k + 1" "length d2 = n + k + 1"
    and z: "\<And>g. g < n + k \<Longrightarrow> nb ! g \<noteq> 0 \<or> d1 ! g \<noteq> 0 \<or> d2 ! g \<noteq> 0 \<Longrightarrow>
                g \<le> n \<and> n + 1 \<le> g + j \<and> (i \<le> g \<longrightarrow> n + 2 \<le> g + j)"
    by (auto simp: dstate_ok_def st)
  have lk: "i + j < length ?kn"
    using i by (simp add: knot_open_uniform_closed_form del: upt_Suc)
  have i1: "i + 1 < n + k" using i j by simp
  have sp0: "?kn ! (i + j - 1) \<noteq> ?kn ! i" if "nb ! i \<noteq> 0 \<or> d1 ! i \<noteq> 0 \<or> d2 ! i \<noteq> 0"
  proof -
    from z[OF _ that] i1 have "i \<le> n \<and> n + 2 \<le> i + j" by simp
    then show ?thesis using k i by (intro open_uniform_span) auto
  qed
  have sp1: "?kn ! (i + j) \<noteq> ?kn ! (i + 1)"
    if "nb ! (i + 1) \<noteq> 0 \<or> d1 ! (i + 1) \<noteq> 0 \<or> d2 ! (i + 1) \<noteq> 0"
  proof -
    from z[OF i1 that] have "i + 1 \<le> n \<and> n + 2 \<le> i + 1 + j" by simp
    then have "?kn ! (i + 1 + j - 1) \<noteq> ?kn ! (i + 1)" using k i by (intro open_uniform_span) auto
    then show ?thesis by simp
  qed
  have "i + 1 < length nb" "i + 1 < length d1" "i + 1 < length d2" using ln i1 by simp_all
  from dbasis_step_value[OF i(1) lk j(1) this sp0 sp1, of t]
  obtain b f g where r: "dbasis_step ?kn t j (nb, d1, d2) i = Inr (nb[i := b], d1[i := f], d2[i := g])"
    and zz: "nb ! i = 0 \<and> d1 ! i = 0 \<and> d2 ! i = 0 \<and>
            nb ! (i + 1) = 0 \<and> d1 ! (i + 1) = 0 \<and> d2 ! (i + 1) = 0 \<longrightarrow> b = 0 \<and> f = 0 \<and> g = 0"
    by auto
  have "dstate_ok (n + k) n j (Suc i) (nb[i := b], d1[i := f], d2[i := g])"
    unfolding dstate_ok_def prod.case
  proof (intro conjI allI impI)
    fix h assume h: "h < n + k"
      and nz: "nb[i := b] ! h \<noteq> 0 \<or> d1[i := f] ! h \<noteq> 0 \<or> d2[i := g] ! h \<noteq> 0"
    show "h \<le> n" "n + 1 \<le> h + j" "Suc i \<le> h \<Longrightarrow> n + 2 \<le> h + j"
    proof -
      have "h \<le> n \<and> n + 1 \<le> h + j \<and> (Suc i \<le> h \<longrightarrow> n + 2 \<le> h + j)"
      proof (cases "h = i")
        case True
        from nz True ln i1 have "b \<noteq> 0 \<or> f \<noteq> 0 \<or> g \<noteq> 0" by simp
        with zz have "(nb ! i \<noteq> 0 \<or> d1 ! i \<noteq> 0 \<or> d2 ! i \<noteq> 0) \<or>
                      (nb ! (i + 1) \<noteq> 0 \<or> d1 ! (i + 1) \<noteq> 0 \<or> d2 ! (i + 1) \<noteq> 0)" by blast
        then show ?thesis
        proof
          assume "nb ! i \<noteq> 0 \<or> d1 ! i \<noteq> 0 \<or> d2 ! i \<noteq> 0"
          from z[OF _ this] i1 True show ?thesis by simp
        next
          assume "nb ! (i + 1) \<noteq> 0 \<or> d1 ! (i + 1) \<noteq> 0 \<or> d2 ! (i + 1) \<noteq> 0"
          from z[OF i1 this] True show ?thesis by simp
        qed
      next
        case False
        with nz have "nb ! h \<noteq> 0 \<or> d1 ! h \<noteq> 0 \<or> d2 ! h \<noteq> 0" by simp
        from z[OF h this] False show ?thesis by auto
      qed
      then show "h \<le> n" "n + 1 \<le> h + j" "Suc i \<le> h \<Longrightarrow> n + 2 \<le> h + j" by auto
    qed
  qed (use ln in simp_all)
  then show ?thesis using r st by simp
qed


lemma dbasis_level_open_uniform:
  assumes k: "1 \<le> k" "k \<le> n" and j: "2 \<le> j" "j \<le> k"
    and ok: "dstate_ok (n + k) n j 1 st"
  shows "\<exists>st'. dbasis_level (knot_open_uniform n k) t (n + k) st j = Inr st' \<and>
               dstate_ok (n + k) n (Suc j) 1 st'"
proof -
  have "\<exists>st'. for_loop (dbasis_step (knot_open_uniform n k) t j) st [1..<n + k - j + 1] = Inr st' \<and>
              dstate_ok (n + k) n j (n + k - j + 1) st'"
  proof (rule for_loop_upt_invariant[where P = "dstate_ok (n + k) n j"])
    fix i st1
    assume "1 \<le> i" "i < n + k - j + 1" "dstate_ok (n + k) n j i st1"
    then show "\<exists>st'. dbasis_step (knot_open_uniform n k) t j st1 i = Inr st' \<and>
                     dstate_ok (n + k) n j (Suc i) st'"
      using k j by (intro dbasis_step_open_uniform) auto
  qed (use ok in simp_all)
  then obtain st' where st': "dbasis_level (knot_open_uniform n k) t (n + k) st j = Inr st'"
    "dstate_ok (n + k) n j (n + k - j + 1) st'"
    by (auto simp: dbasis_level_def)
  have "dstate_ok (n + k) n (Suc j) 1 st'"
    using st'(2) by (cases st') (auto simp: dstate_ok_def)
  with st'(1) show ?thesis by blast
qed

lemma dbasis_levels_open_uniform:
  assumes k: "1 \<le> k" "k \<le> n" and ok: "dstate_ok (n + k) n 2 1 st"
  shows "\<exists>st'. for_loop (dbasis_level (knot_open_uniform n k) t (n + k)) st [2..<k + 1] = Inr st' \<and>
               dstate_ok (n + k) n (k + 1) 1 st'"
proof (rule for_loop_upt_invariant[where P = "\<lambda>j. dstate_ok (n + k) n j 1"])
  fix j st1
  assume "2 \<le> j" "j < k + 1" "dstate_ok (n + k) n j 1 st1"
  then show "\<exists>st'. dbasis_level (knot_open_uniform n k) t (n + k) st1 j = Inr st' \<and>
                   dstate_ok (n + k) n (Suc j) 1 st'"
    using k by (intro dbasis_level_open_uniform) auto
qed (use k ok in simp_all)

lemma uniform_span:
  assumes "1 \<le> a" "a < b" "b \<le> n + k"
  shows "knot_uniform n k ! b \<noteq> knot_uniform n k ! a"
  using assms by (simp add: knot_uniform_nth)

lemma dbasis_step_uniform:
  assumes j: "2 \<le> j" and i: "1 \<le> i" "i + j \<le> n + k" and ok: "dstate_lengths (n + k) st"
  shows "\<exists>st'. dbasis_step (knot_uniform n k) t j st i = Inr st' \<and> dstate_lengths (n + k) st'"
proof -
  let ?kn = "knot_uniform n k"
  obtain nb d1 d2 where st: "st = (nb, d1, d2)" by (cases st) auto
  from ok have ln: "length nb = n + k" "length d1 = n + k + 1" "length d2 = n + k + 1"
    by (auto simp: dstate_lengths_def st)
  have lk: "i + j < length ?kn"
    using i by (simp add: knot_uniform_closed_form del: upt_Suc)
  have sp0: "?kn ! (i + j - 1) \<noteq> ?kn ! i" using i j by (intro uniform_span) auto
  have sp1: "?kn ! (i + j) \<noteq> ?kn ! (i + 1)" using i j by (intro uniform_span) auto
  have "i + 1 < length nb" "i + 1 < length d1" "i + 1 < length d2" using ln i j by simp_all
  from dbasis_step_value[OF i(1) lk j this sp0 sp1, of t]
  obtain b f g where "dbasis_step ?kn t j (nb, d1, d2) i = Inr (nb[i := b], d1[i := f], d2[i := g])"
    by auto
  then show ?thesis using st ln by (simp add: dstate_lengths_def)
qed

lemma dbasis_levels_uniform:
  assumes ok: "dstate_lengths (n + k) st"
  shows "\<exists>st'. for_loop (dbasis_level (knot_uniform n k) t (n + k)) st [2..<k + 1] = Inr st' \<and>
               dstate_lengths (n + k) st'"
proof (cases "1 \<le> k")
  case False
  then show ?thesis using ok by simp
next
  case True
  show ?thesis
  proof (rule for_loop_upt_invariant[where P = "\<lambda>j. dstate_lengths (n + k)"])
    fix j st1
    assume j: "2 \<le> j" "j < k + 1" and ok1: "dstate_lengths (n + k) st1"
    have "\<exists>st'. for_loop (dbasis_step (knot_uniform n k) t j) st1 [1..<n + k - j + 1] = Inr st' \<and>
                dstate_lengths (n + k) st'"
    proof (rule for_loop_upt_invariant[where P = "\<lambda>i. dstate_lengths (n + k)"])
      fix i st2
      assume "1 \<le> i" "i < n + k - j + 1" "dstate_lengths (n + k) st2"
      then show "\<exists>st'. dbasis_step (knot_uniform n k) t j st2 i = Inr st' \<and>
                       dstate_lengths (n + k) st'"
        using j by (intro dbasis_step_uniform) auto
    qed (use ok1 in simp_all)
    then show "\<exists>st'. dbasis_level (knot_uniform n k) t (n + k) st1 j = Inr st' \<and>
                     dstate_lengths (n + k) st'"
      by (simp add: dbasis_level_def)
  qed (use True ok in simp_all)
qed


lemma dbasis_open_uniform_at_max_t:
  assumes init: "BSpline_init DBSpline cps k None = Inr s" and k: "1 \<le> k" "k \<le> length cps"
  shows "\<exists>st. dbasis s (knots s ! nplusc s) = Inr st \<and> dstate_lengths (nplusc s) st"
proof -
  note f = BSpline_init_fields[OF init]
  let ?n = "length cps"
  let ?kn = "knot_open_uniform ?n k"
  have kn: "knots s = ?kn" using f by (simp add: default_knots_def)
  have npc: "nplusc s = ?n + k" and ord: "order s = k" and cpc: "cp_count s = ?n"
    using f by simp_all
  have srt: "sorted (tl ?kn)" using default_knots_sorted[of BSpline ?n k] by (simp add: default_knots_def)
  have len: "?n + k < length ?kn" using default_knots_length[of BSpline ?n k]
    by (simp add: default_knots_def)
  define mt where "mt = ?kn ! (?n + k)"
  define nb0 where "nb0 = (basis_buffer ?kn mt (?n + k) 1)[?n := 1]"
  have c2: "create_nbasis2 s mt = Inr nb0"
    using create_nbasis2_open[of s] f len k
    by (simp add: kn mt_def nb0_def)
  have z: "nb0 ! g = 0" if "g < ?n + k" "g \<noteq> ?n" for g
  proof (cases "g = 0")
    case True
    have "basis_buffer ?kn mt (?n + k) 1 ! 0 = 0" by (simp add: basis_buffer_def)
    then show ?thesis using that True by (simp add: nb0_def)
  next
    case False
    then have "cox_de_boor ?kn (?kn ! (?n + k)) (min 1 (?n + k - g)) g = 0"
      using that srt len by (intro cox_de_boor_zero_at_last_knot) auto
    then show ?thesis using that False by (simp add: nb0_def nth_basis_buffer mt_def)
  qed
  have ok: "dstate_ok (?n + k) ?n 2 1 (nb0, replicate (?n + k + 1) 0, replicate (?n + k + 1) 0)"
    unfolding dstate_ok_def prod.case
  proof (intro conjI allI impI)
    fix g assume g: "g < ?n + k"
      and nz: "nb0 ! g \<noteq> 0 \<or> replicate (?n + k + 1) 0 ! g \<noteq> (0::real) \<or>
               replicate (?n + k + 1) 0 ! g \<noteq> (0::real)"
    moreover have "replicate (?n + k + 1) 0 ! g = (0::real)"
      using g by (intro nth_replicate) simp
    ultimately have "nb0 ! g \<noteq> 0" by blast
    with z[OF g] have "g = ?n" by blast
    then show "g \<le> ?n" "?n + 1 \<le> g + 2" "?n + 2 \<le> g + 2" by simp_all
  qed (use k in \<open>simp_all add: nb0_def max_def\<close>)
  from dbasis_levels_open_uniform[OF k ok, of mt]
  obtain st' where st': "for_loop (dbasis_level ?kn mt (?n + k))
                           (nb0, replicate (?n + k + 1) 0, replicate (?n + k + 1) 0) [2..<k + 1] = Inr st'"
    "dstate_ok (?n + k) ?n (k + 1) 1 st'" by blast
  have "dbasis s mt = Inr st'"
    unfolding dbasis_def c2 rbind_Inr Let_def kn npc ord using st'(1) .
  moreover have "dstate_lengths (?n + k) st'"
    using st'(2) by (cases st') (auto simp: dstate_ok_def dstate_lengths_def)
  ultimately show ?thesis unfolding kn npc mt_def by blast
qed

lemma dbasis_uniform_at_max_t:
  assumes init: "BSpline_init DBSplineU cps k None = Inr s" and k: "2 \<le> k"
  shows "\<exists>st. dbasis s (real (cp_count s)) = Inr st \<and> dstate_lengths (nplusc s) st"
proof -
  note f = BSpline_init_fields[OF init]
  let ?n = "length cps"
  let ?kn = "knot_uniform ?n k"
  have kn: "knots s = ?kn" using f by (simp add: default_knots_def)
  have npc: "nplusc s = ?n + k" and ord: "order s = k" and cpc: "cp_count s = ?n"
    using f by simp_all
  have len: "?n + k < length ?kn" using default_knots_length[of DBSplineU ?n k]
    by (simp add: default_knots_def)
  have mt: "?kn ! (?n + 1) = real ?n" using k by (simp add: knot_uniform_nth)
  define nb0 where "nb0 = (basis_buffer ?kn (real ?n) (?n + k) 1)[?n := 1, ?n + 1 := 0]"
  have c2: "create_nbasis2 s (real ?n) = Inr nb0"
    using create_nbasis2_uniform[of s] f len k mt
    by (simp add: kn nb0_def)
  have ok: "dstate_lengths (?n + k) (nb0, replicate (?n + k + 1) 0, replicate (?n + k + 1) 0)"
    using k by (simp add: dstate_lengths_def nb0_def max_def)
  from dbasis_levels_uniform[OF ok, of "real ?n"]
  obtain st' where st': "for_loop (dbasis_level ?kn (real ?n) (?n + k))
                           (nb0, replicate (?n + k + 1) 0, replicate (?n + k + 1) 0) [2..<k + 1] = Inr st'"
    "dstate_lengths (?n + k) st'" by blast
  have "dbasis s (real ?n) = Inr st'"
    unfolding dbasis_def c2 rbind_Inr Let_def kn npc ord using st'(1) .
  then show ?thesis using st'(2) unfolding cpc npc by blast
qed

lemma weighted_triple_returns:
  assumes "npts1 \<le> length nb" "npts1 \<le> length cps"
  shows "\<exists>p. weighted_triple nb cps npts1 = Inr p"
  by (simp add: weighted_triple_def axis_value_sum[OF assms])

lemma dpoint_returns:
  assumes mt: "max_t s = Inr mt" and db: "dbasis s mt = Inr st" "dstate_lengths (nplusc s) st"
    and n: "cp_count s < nplusc s" "cp_count s < length (control_points s)"
  shows "\<exists>q. dpoint s mt = Inr q"
proof -
  obtain nb d1 d2 where st: "st = (nb, d1, d2)" by (cases st) auto
  have l: "cp_count s + 1 \<le> length nb" "cp_count s + 1 \<le> length d1" "cp_count s + 1 \<le> length d2"
    "cp_count s + 1 \<le> length (control_points s)"
    using db(2) n by (auto simp: dstate_lengths_def st)
  from weighted_triple_returns[OF l(1) l(4)] weighted_triple_returns[OF l(2) l(4)]
    weighted_triple_returns[OF l(3) l(4)]
  obtain p q r where "weighted_triple nb (control_points s) (cp_count s + 1) = Inr p"
    "weighted_triple d1 (control_points s) (cp_count s + 1) = Inr q"
    "weighted_triple d2 (control_points s) (cp_count s + 1) = Inr r" by blast
  then have "dpoint s mt = Inr (p, q, r)"
    by (simp add: dpoint_def mt snap_def db(1) st)
  then show ?thesis by blast
qed

lemma point_snap:
  "max_t s = Inr mt \<Longrightarrow> mt - t < 5 / 10 ^ 6 \<Longrightarrow> point s t = point s mt"
  by (simp add: point_def snap_def)

lemma dpoint_snap:
  "max_t s = Inr mt \<Longrightarrow> mt - t < 5 / 10 ^ 6 \<Longrightarrow> dpoint s t = dpoint s mt"
  by (simp add: dpoint_def snap_def)


text \<open>
  With the default knots and \<open>2 \<le> k \<le> n\<close>, the point evaluation of each of the six
  classes returns a value at every \<open>t\<close> with \<open>max_t - t < 5e-6\<close>, however far above
  \<^verbatim>\<open>max_t\<close>, and it is the evaluation at \<^verbatim>\<open>max_t\<close>.
\<close>

lemma point_above_max_t_default_knots:
  assumes init: "new_curve c cps ws k None = Inr s" and k: "2 \<le> k" "k \<le> length cps"
    and wts: "c = RBSplineU \<longrightarrow> length cps \<le> length ws"
  shows "\<exists>mt. max_t s = Inr mt \<and>
           (\<forall>t. mt - t < 5 / 10 ^ 6 \<longrightarrow>
              (if is_derivative c then dpoint s t = dpoint s mt \<and> (\<exists>q. dpoint s t = Inr q)
               else point s t = point s mt \<and> (\<exists>p. point s t = Inr p)))"
proof -
  note f = new_curve_fields[OF init]
  have k1: "1 \<le> k" using k by simp
  have kn: "knots s = default_knots c (length cps) k" using f by simp
  have srt: "sorted (tl (knots s))" unfolding kn by (rule default_knots_sorted)
  have len: "length cps + k < length (knots s)" unfolding kn by simp
  have len': "nplusc s < length (knots s)" using f len by simp
  from max_t_returns[OF len'] obtain mt where mt: "max_t s = Inr mt" by blast
  have v: "point s t = point s mt \<and> (\<exists>p. point s t = Inr p)" if "mt - t < 5 / 10 ^ 6" for t
  proof -
    from point_value_form[OF init k1 srt len wts mt, of t] obtain nb
      where "point s t = Inr (weighted_sum nb cps)" by blast
    then have "\<exists>p. point s t = Inr p" by (rule exI)
    with point_snap[OF mt that] show ?thesis by (rule conjI)
  qed
  have d: "\<exists>q. dpoint s mt = Inr q" if dc: "is_derivative c"
  proof -
    have n: "cp_count s < nplusc s" "cp_count s < length (control_points s)" using f k by simp_all
    consider "c = DBSpline" | "c = DBSplineU" using dc by (cases c) auto
    then show ?thesis
    proof cases
      case 1
      then have i: "BSpline_init DBSpline cps k None = Inr s"
        using init by (simp add: new_curve_def)
      have "mt = knots s ! nplusc s"
        using mt f 1 len' by (simp add: max_t_def getitem_in_range)
      with dbasis_open_uniform_at_max_t[OF i k1 k(2)] obtain st
        where "dbasis s mt = Inr st" "dstate_lengths (nplusc s) st" by auto
      from dpoint_returns[OF mt this n] show ?thesis .
    next
      case 2
      then have i: "BSpline_init DBSplineU cps k None = Inr s"
        using init by (simp add: new_curve_def)
      have "mt = real (cp_count s)" using mt f 2 by (simp add: max_t_def)
      with dbasis_uniform_at_max_t[OF i k(1)] obtain st
        where "dbasis s mt = Inr st" "dstate_lengths (nplusc s) st" by auto
      from dpoint_returns[OF mt this n] show ?thesis .
    qed
  qed
  have dv: "dpoint s t = dpoint s mt \<and> (\<exists>q. dpoint s t = Inr q)"
    if "mt - t < 5 / 10 ^ 6" "is_derivative c" for t
    using dpoint_snap[OF mt that(1)] d[OF that(2)] by simp
  have "if is_derivative c then dpoint s t = dpoint s mt \<and> (\<exists>q. dpoint s t = Inr q)
        else point s t = point s mt \<and> (\<exists>p. point s t = Inr p)"
    if "mt - t < 5 / 10 ^ 6" for t
  proof (cases "is_derivative c")
    case True
    show ?thesis unfolding if_P[OF True] by (rule dv[OF that True])
  next
    case False
    show ?thesis unfolding if_not_P[OF False] by (rule v[OF that])
  qed
  with mt show ?thesis by blast
qed

text \<open>
  Claim C9: for every curve and every \<open>t\<close> with \<open>max_t - t < 5e-6\<close>, however far above
  \<^verbatim>\<open>max_t\<close>, the point evaluation is the evaluation at exactly \<^verbatim>\<open>max_t\<close> and never raises.
  The snap is as claimed for every curve object (\<open>point_snap\<close>, \<open>dpoint_snap\<close>), and with
  the default knots the evaluation returns (\<open>point_above_max_t_default_knots\<close>). But
  \<^verbatim>\<open>DBSplineMixin.point\<close> does raise where the derivative form divides by a zero-width
  knot span at \<^verbatim>\<open>max_t\<close>: three control points, order 2, the non-decreasing knots
  \<open>0, 0, 1, 1, 1\<close> (after the placeholder), \<^verbatim>\<open>max_t = 1\<close> and \<open>t = 100\<close>. The parameter is
  snapped to 1 and \<^verbatim>\<open>point(100)\<close> raises \<open>ZeroDivisionError\<close>, as \<^verbatim>\<open>point(1)\<close> does, while
  \<^verbatim>\<open>point(1/2)\<close> returns and a \<^verbatim>\<open>BSpline\<close> on the same data returns the last control point
  at \<open>t = 100\<close>.
\<close>

theorem point_above_max_t_zero_division:
  "sorted (tl [0, 0, 0, 1, 1, 1 :: real]) \<and>
   new_curve DBSpline [(0, 0, 0), (1, 0, 0), (2, 0, 0)] [] 2 (Some [0, 0, 0, 1, 1, 1]) =
     Inr \<lparr> cls = DBSpline, control_points = [(0, 0, 0), (0, 0, 0), (1, 0, 0), (2, 0, 0)],
           cp_count = 3, order = 2, nplusc = 5,
           knots = [0, 0, 0, 1, 1, 1], weights = [] \<rparr> \<and>
   max_t \<lparr> cls = DBSpline, control_points = [(0, 0, 0), (0, 0, 0), (1, 0, 0), (2, 0, 0)],
           cp_count = 3, order = 2, nplusc = 5,
           knots = [0, 0, 0, 1, 1, 1], weights = [] \<rparr> = Inr 1 \<and>
   (1 :: real) - 100 < 5 / 10 ^ 6 \<and> snap 1 100 = 1 \<and>
   dpoint \<lparr> cls = DBSpline, control_points = [(0, 0, 0), (0, 0, 0), (1, 0, 0), (2, 0, 0)],
           cp_count = 3, order = 2, nplusc = 5,
           knots = [0, 0, 0, 1, 1, 1], weights = [] \<rparr> 100 = Inl ZeroDivisionError \<and>
   dpoint \<lparr> cls = DBSpline, control_points = [(0, 0, 0), (0, 0, 0), (1, 0, 0), (2, 0, 0)],
           cp_count = 3, order = 2, nplusc = 5,
           knots = [0, 0, 0, 1, 1, 1], weights = [] \<rparr> (1 / 2) =
     Inr ((1 / 2, 0, 0), (1, 0, 0), (0, 0, 0)) \<and>
   point \<lparr> cls = BSpline, control_points = [(0, 0, 0), (0, 0, 0), (1, 0, 0), (2, 0, 0)],
           cp_count = 3, order = 2, nplusc = 5,
           knots = [0, 0, 0, 1, 1, 1], weights = [] \<rparr> 100 = Inr (2, 0, 0)"
  by (simp add: new_curve_def eval_defs)

end
